theory Spec2Isabelle
  imports Main
begin

section \<open>Release notes for Slack: the changelog parser and the block renderer\<close>

text \<open>
  A shallow embedding of \<^verbatim>\<open>src/main.js\<close>: \<^verbatim>\<open>parseMarkdown\<close>, \<^verbatim>\<open>versionToBlocks\<close>,
  \<^verbatim>\<open>addHeader\<close> and the part of \<^verbatim>\<open>run\<close> that connects them.

  JavaScript strings are modelled as \<open>string\<close>, one \<open>char\<close> per code unit, so the
  model covers documents whose code units are below 256. Among the characters that the
  regular expression wildcard \<^verbatim>\<open>.\<close> refuses, line feed and carriage return are in that range;
  U+2028 and U+2029 are not, and do not occur in the model.

  A value that may be \<^verbatim>\<open>undefined\<close> is an \<open>option\<close> (\<open>None\<close> is \<^verbatim>\<open>undefined\<close>, and for the
  result of \<^verbatim>\<open>String.prototype.match\<close> it is \<^verbatim>\<open>null\<close>). Every \<^verbatim>\<open>TypeError\<close> that the code can
  throw is a value of \<open>error\<close>, and a function that can throw returns \<open>error + 'a\<close>.
\<close>

subsection \<open>Errors\<close>

text \<open>
  The code throws nothing by itself; what it can raise are the \<^verbatim>\<open>TypeError\<close>s of the
  runtime, one constructor per place:
  \<^item> \<open>NullMatch\<close>: \<^verbatim>\<open>line.match(re)[i]\<close> where the match is \<^verbatim>\<open>null\<close>;
  \<^item> \<open>UndefinedSplit\<close>: \<^verbatim>\<open>itemCpy.split(link)\<close> where \<^verbatim>\<open>itemCpy\<close> is \<^verbatim>\<open>undefined\<close>;
  \<^item> \<open>UndefinedItems\<close>: \<^verbatim>\<open>section.items\<close> where \<^verbatim>\<open>section\<close> is \<^verbatim>\<open>undefined\<close>;
  \<^item> \<open>UndefinedHeader\<close>: \<^verbatim>\<open>version.header\<close> where \<^verbatim>\<open>version\<close> is \<^verbatim>\<open>undefined\<close>.
\<close>

datatype error = NullMatch | UndefinedSplit | UndefinedItems | UndefinedHeader

subsection \<open>String primitives\<close>

text \<open>\<^verbatim>\<open>s.startsWith(p)\<close>.\<close>

definition startsWith :: "string \<Rightarrow> string \<Rightarrow> bool" where
  "startsWith s p = (take (length p) s = p)"

text \<open>
  \<^verbatim>\<open>s.replaceAll(pat, rep)\<close> for a string pattern: every occurrence, left to right, without
  overlaps. The code only calls it with the non-empty patterns \<^verbatim>\<open>'**'\<close>, \<^verbatim>\<open>'* '\<close>, \<^verbatim>\<open>'&'\<close>,
  \<^verbatim>\<open>'<'\<close> and \<^verbatim>\<open>'>'\<close>, and with replacements that hold no \<^verbatim>\<open>$\<close>; the empty pattern is not
  modelled (the string is returned as it is).
\<close>

fun replaceAll :: "string \<Rightarrow> string \<Rightarrow> string \<Rightarrow> string" where
  "replaceAll pat rep [] = []"
| "replaceAll pat rep (x # xs) =
     (if pat \<noteq> [] \<and> startsWith (x # xs) pat
      then rep @ replaceAll pat rep (drop (length pat) (x # xs))
      else x # replaceAll pat rep xs)"

text \<open>\<^verbatim>\<open>s.replace(pat, rep)\<close> for a string pattern: the first occurrence only.\<close>

fun js_replace :: "string \<Rightarrow> string \<Rightarrow> string \<Rightarrow> string" where
  "js_replace pat rep [] = (if pat = [] then rep else [])"
| "js_replace pat rep (x # xs) =
     (if startsWith (x # xs) pat then rep @ drop (length pat) (x # xs)
      else x # js_replace pat rep xs)"

text \<open>
  \<^verbatim>\<open>s.split(sep)\<close> for a string separator. \<open>js_split_aux sep cur s\<close> has read the piece
  \<open>cur\<close> since the last separator. An empty separator splits into code units.
\<close>

fun js_split_aux :: "string \<Rightarrow> string \<Rightarrow> string \<Rightarrow> string list" where
  "js_split_aux sep cur [] = [cur]"
| "js_split_aux sep cur (x # xs) =
     (if sep \<noteq> [] \<and> startsWith (x # xs) sep
      then cur # js_split_aux sep [] (drop (length sep) (x # xs))
      else js_split_aux sep (cur @ [x]) xs)"

definition js_split :: "string \<Rightarrow> string \<Rightarrow> string list" where
  "js_split s sep = (if sep = [] then map (\<lambda>c. [c]) s else js_split_aux sep [] s)"

subsection \<open>Regular expressions\<close>

text \<open>
  The regular expressions of the code are sequences of single characters, \<^verbatim>\<open>\d\<close>, \<^verbatim>\<open>.\<close>,
  \<^verbatim>\<open>\d+\<close> and the capturing group \<^verbatim>\<open>(.*?)\<close>. \<open>cls\<close> is a character class, \<open>atom\<close> a class
  with its quantifier.
\<close>

datatype cls = Lit char | Digit | Dot

fun cls_ok :: "cls \<Rightarrow> char \<Rightarrow> bool" where
  "cls_ok (Lit c) x = (x = c)"
| "cls_ok Digit x = (x \<in> set ''0123456789'')"
| "cls_ok Dot x = (x \<noteq> CHR 0x0A \<and> x \<noteq> CHR 0x0D)"

datatype atom = One cls | Plus cls | CapLazy cls

type_synonym regex = "atom list"

text \<open>
  The matcher is the backtracking matcher of the language definition, with the rest of the
  pattern as a continuation \<open>k\<close>. A lazy star first tries the continuation and takes one
  more character only when that fails; a greedy star first takes one more character and
  tries the continuation when that fails.
\<close>

fun lazy_star :: "(char \<Rightarrow> bool) \<Rightarrow> (string \<Rightarrow> 'a option) \<Rightarrow> string \<Rightarrow> string \<Rightarrow> (string \<times> 'a) option" where
  "lazy_star p k acc [] = (case k [] of Some r \<Rightarrow> Some (acc, r) | None \<Rightarrow> None)"
| "lazy_star p k acc (x # xs) =
     (case k (x # xs) of
        Some r \<Rightarrow> Some (acc, r)
      | None \<Rightarrow> if p x then lazy_star p k (acc @ [x]) xs else None)"

fun greedy_star :: "(char \<Rightarrow> bool) \<Rightarrow> (string \<Rightarrow> 'a option) \<Rightarrow> string \<Rightarrow> 'a option" where
  "greedy_star p k [] = k []"
| "greedy_star p k (x # xs) =
     (if p x
      then (case greedy_star p k xs of Some r \<Rightarrow> Some r | None \<Rightarrow> k (x # xs))
      else k (x # xs))"

text \<open>
  \<open>bt re s\<close> matches \<open>re\<close> at the start of \<open>s\<close>: the captures in order, and what is left of
  \<open>s\<close> after the match.
\<close>

primrec bt :: "regex \<Rightarrow> string \<Rightarrow> (string list \<times> string) option" where
  "bt [] s = Some ([], s)"
| "bt (a # re) s =
     (case a of
        One c \<Rightarrow> (case s of [] \<Rightarrow> None | x # xs \<Rightarrow> if cls_ok c x then bt re xs else None)
      | Plus c \<Rightarrow>
          (case s of [] \<Rightarrow> None
           | x # xs \<Rightarrow> if cls_ok c x then greedy_star (cls_ok c) (bt re) xs else None)
      | CapLazy c \<Rightarrow>
          (case lazy_star (cls_ok c) (bt re) [] s of
             None \<Rightarrow> None
           | Some (g, caps, rest) \<Rightarrow> Some (g # caps, rest)))"

text \<open>
  \<^verbatim>\<open>s.match(re)\<close> without the \<^verbatim>\<open>g\<close> flag: the match at the leftmost index that has one, as the
  array of the matched text and the captures, or \<^verbatim>\<open>null\<close>.
\<close>

fun js_match :: "regex \<Rightarrow> string \<Rightarrow> string list option" where
  "js_match re [] = (case bt re [] of None \<Rightarrow> None | Some (caps, rest) \<Rightarrow> Some ([] # caps))"
| "js_match re (x # xs) =
     (case bt re (x # xs) of
        None \<Rightarrow> js_match re xs
      | Some (caps, rest) \<Rightarrow> Some (take (length (x # xs) - length rest) (x # xs) # caps))"

text \<open>\<^verbatim>\<open>s.match(re)[i]\<close>: a \<^verbatim>\<open>TypeError\<close> when the match is \<^verbatim>\<open>null\<close>.\<close>

definition match_at :: "regex \<Rightarrow> string \<Rightarrow> nat \<Rightarrow> error + string" where
  "match_at re s i = (case js_match re s of None \<Rightarrow> Inl NullMatch | Some arr \<Rightarrow> Inr (arr ! i))"

text \<open>
  \<^verbatim>\<open>s.match(re)\<close> with the \<^verbatim>\<open>g\<close> flag, read as \<^verbatim>\<open>s.match(re) ?? []\<close>: the matched texts, left to
  right. After a match of \<open>n > 0\<close> characters the search goes on behind it (\<open>skip\<close> counts the
  characters of the match that are still to pass); after an empty match it goes on one
  character further.
\<close>

fun match_all :: "regex \<Rightarrow> nat \<Rightarrow> string \<Rightarrow> string list" where
  "match_all re skip [] =
     (if skip = 0 then (case bt re [] of None \<Rightarrow> [] | Some r \<Rightarrow> [[]]) else [])"
| "match_all re skip (x # xs) =
     (if 0 < skip then match_all re (skip - 1) xs
      else (case bt re (x # xs) of
              None \<Rightarrow> match_all re 0 xs
            | Some (caps, rest) \<Rightarrow>
                (let n = length (x # xs) - length rest
                 in take n (x # xs) # match_all re (n - 1) xs)))"

text \<open>The regular expressions of \<^verbatim>\<open>parseMarkdown\<close>, in the order of the source.\<close>

definition re_bracket_version :: regex where
  \<comment> \<open>\<^verbatim>\<open>/# \[(.*?)\]/\<close>\<close>
  "re_bracket_version =
     [One (Lit CHR ''#''), One (Lit CHR '' ''), One (Lit CHR ''[''), CapLazy Dot, One (Lit CHR '']'')]"

definition re_date :: regex where
  \<comment> \<open>\<^verbatim>\<open>/\d{4}-\d{2}-\d{2}/\<close>\<close>
  "re_date =
     [One Digit, One Digit, One Digit, One Digit, One (Lit CHR ''-''),
      One Digit, One Digit, One (Lit CHR ''-''), One Digit, One Digit]"

definition re_paren :: regex where
  \<comment> \<open>\<^verbatim>\<open>/\((.*?)\)/\<close>\<close>
  "re_paren = [One (Lit CHR ''(''), CapLazy Dot, One (Lit CHR '')'')]"

definition re_bare_header :: regex where
  \<comment> \<open>\<^verbatim>\<open>/^# \d+.\d+.\d+/\<close> without its anchor: \<open>bare_header\<close> matches it at index 0 only\<close>
  "re_bare_header =
     [One (Lit CHR ''#''), One (Lit CHR '' ''), Plus Digit, One Dot, Plus Digit, One Dot, Plus Digit]"

definition re_bare_version :: regex where
  \<comment> \<open>\<^verbatim>\<open>/# (.*?) /\<close>\<close>
  "re_bare_version = [One (Lit CHR ''#''), One (Lit CHR '' ''), CapLazy Dot, One (Lit CHR '' '')]"

definition re_link :: regex where
  \<comment> \<open>\<^verbatim>\<open>/\[(.*?)\]\((.*?)\)/g\<close>\<close>
  "re_link =
     [One (Lit CHR ''[''), CapLazy Dot, One (Lit CHR '']''),
      One (Lit CHR ''(''), CapLazy Dot, One (Lit CHR '')'')]"

definition re_bracket :: regex where
  \<comment> \<open>\<^verbatim>\<open>/\[(.*?)\]/\<close>\<close>
  "re_bracket = [One (Lit CHR ''[''), CapLazy Dot, One (Lit CHR '']'')]"

text \<open>
  \<^verbatim>\<open>line.match(/^# \d+.\d+.\d+/)\<close> as a condition: the anchor admits a match at index 0
  only, and a match array is truthy.
\<close>

definition bare_header :: "string \<Rightarrow> bool" where
  "bare_header line = (bt re_bare_header line \<noteq> None)"

subsection \<open>The data of the parser\<close>

text \<open>
  The first loop of \<^verbatim>\<open>parseMarkdown\<close> turns lines into elements, objects with a \<^verbatim>\<open>type\<close> of
  \<^verbatim>\<open>'Header'\<close>, \<^verbatim>\<open>'Section'\<close> or \<^verbatim>\<open>'Item'\<close>. The runs of an item (its \<^verbatim>\<open>sections\<close>) are
  objects with a \<^verbatim>\<open>type\<close> of \<^verbatim>\<open>'Text'\<close> or \<^verbatim>\<open>'Link'\<close>.
  \<^item> \<open>Text t\<close> is \<^verbatim>\<open>{ type: 'Text', text: t }\<close>; the text of the last run can be \<^verbatim>\<open>undefined\<close>.
  \<^item> \<open>Link raw url t\<close> is \<^verbatim>\<open>{ type: 'Link', raw, url, text: t }\<close>.
  \<^item> \<open>HeaderEl raw version date url\<close> is \<^verbatim>\<open>{ type: 'Header', raw, version, date, url }\<close>; a bare
    numeric header has no \<^verbatim>\<open>url\<close>.
  \<^item> \<open>SectionEl raw title\<close> is \<^verbatim>\<open>{ type: 'Section', raw, title }\<close>.
  \<^item> \<open>ItemEl raw runs\<close> is \<^verbatim>\<open>{ type: 'Item', raw, sections: runs }\<close>.
\<close>

datatype run = Text "string option" | Link string string string

datatype element =
    HeaderEl string string string "string option"
  | SectionEl string string
  | ItemEl string "run list"

text \<open>
  The records of the result. An item is \<^verbatim>\<open>{ item: element.item, sections: element.sections }\<close>;
  no element has a field \<^verbatim>\<open>item\<close>, so \<open>item\<close> is always \<^verbatim>\<open>undefined\<close>. The field \<^verbatim>\<open>sections\<close>
  of an item is \<open>runs\<close> here, since a version has a field \<open>sections\<close> too.
\<close>

record item_rec =
  item :: "string option"
  runs :: "run list"

record section_rec =
  title :: string
  items :: "item_rec list"

record header_rec =
  version :: string
  date :: string
  url :: "string option"

record version_rec =
  header :: header_rec
  sections :: "section_rec list"

subsection \<open>The first loop: lines to elements\<close>

text \<open>
  The loop over the links of an item line. \<open>secs\<close> is the array \<^verbatim>\<open>sections\<close> and \<open>itemCpy\<close> the
  variable of that name. \<^verbatim>\<open>const [before, after] = itemCpy.split(link)\<close> takes the first two
  pieces of the split as \<open>before_link\<close> and \<open>after_link\<close>; \<^verbatim>\<open>after\<close> is \<^verbatim>\<open>undefined\<close> when there
  is one piece only, and \<^verbatim>\<open>before\<close> is always a string, since a split has at least one piece.
\<close>

fun link_loop :: "string list \<Rightarrow> run list \<Rightarrow> string option \<Rightarrow> error + (run list \<times> string option)" where
  "link_loop [] secs itemCpy = Inr (secs, itemCpy)"
| "link_loop (link # links) secs itemCpy =
     (case match_at re_paren link 1 of
        Inl e \<Rightarrow> Inl e
      | Inr u \<Rightarrow>
     (case match_at re_bracket link 1 of
        Inl e \<Rightarrow> Inl e
      | Inr txt \<Rightarrow>
     (case itemCpy of
        None \<Rightarrow> Inl UndefinedSplit
      | Some cpy \<Rightarrow>
          (let parts = js_split cpy link;
               before_link = hd parts;
               after_link = (if 1 < length parts then Some (parts ! 1) else None)
           in link_loop links (secs @ [Text (Some before_link), Link link u txt]) after_link))))"

text \<open>The normalisation of an item line: the chain of \<^verbatim>\<open>replaceAll\<close>.\<close>

definition normalize :: "string \<Rightarrow> string" where
  "normalize line =
     replaceAll ''>'' ''&gt;''
       (replaceAll ''<'' ''&lt;''
         (replaceAll ''&'' ''&amp;''
           (replaceAll ''* '' []
             (replaceAll ''**'' [] line))))"

text \<open>
  The runs of an item line: the body of \<^verbatim>\<open>if (line.startsWith('* '))\<close> up to the push.
  \<open>itm\<close> is the variable \<^verbatim>\<open>item\<close>.
\<close>

definition item_runs :: "string \<Rightarrow> error + run list" where
  "item_runs line =
     (let itm = normalize line;
          links = match_all re_link 0 itm
      in case link_loop links [] (Some itm) of
           Inl e \<Rightarrow> Inl e
         | Inr (secs, itemCpy) \<Rightarrow> Inr (secs @ [Text itemCpy]))"

text \<open>
  The four conditions of the loop body, one function each: what the condition pushes on
  \<^verbatim>\<open>elements\<close> for one line. They are four \<^verbatim>\<open>if\<close>s, not an \<^verbatim>\<open>else if\<close> chain, so a line goes
  through all four.
\<close>

definition bracket_header :: "string \<Rightarrow> bool" where
  "bracket_header line = (startsWith line ''# ['' \<or> startsWith line ''## ['')"

definition on_bracket_header :: "string \<Rightarrow> error + element list" where
  "on_bracket_header line =
     (if bracket_header line
      then (case match_at re_bracket_version line 1 of
              Inl e \<Rightarrow> Inl e
            | Inr v \<Rightarrow>
           (case match_at re_date line 0 of
              Inl e \<Rightarrow> Inl e
            | Inr d \<Rightarrow>
           (case match_at re_paren line 1 of
              Inl e \<Rightarrow> Inl e
            | Inr u \<Rightarrow> Inr [HeaderEl line v d (Some u)])))
      else Inr [])"

definition on_bare_header :: "string \<Rightarrow> error + element list" where
  "on_bare_header line =
     (if bare_header line
      then (case match_at re_bare_version line 1 of
              Inl e \<Rightarrow> Inl e
            | Inr v \<Rightarrow>
           (case match_at re_date line 0 of
              Inl e \<Rightarrow> Inl e
            | Inr d \<Rightarrow> Inr [HeaderEl line v d None]))
      else Inr [])"

definition on_section :: "string \<Rightarrow> error + element list" where
  "on_section line =
     (if startsWith line ''### '' then Inr [SectionEl line (js_replace ''### '' [] line)]
      else Inr [])"

definition on_item :: "string \<Rightarrow> error + element list" where
  "on_item line =
     (if startsWith line ''* ''
      then (case item_runs line of Inl e \<Rightarrow> Inl e | Inr secs \<Rightarrow> Inr [ItemEl line secs])
      else Inr [])"

text \<open>The body of the first loop for one line: the elements it pushes, in order.\<close>

definition line_elements :: "string \<Rightarrow> error + element list" where
  "line_elements line =
     (case on_bracket_header line of Inl e \<Rightarrow> Inl e | Inr e1 \<Rightarrow>
     (case on_bare_header line of Inl e \<Rightarrow> Inl e | Inr e2 \<Rightarrow>
     (case on_section line of Inl e \<Rightarrow> Inl e | Inr e3 \<Rightarrow>
     (case on_item line of Inl e \<Rightarrow> Inl e | Inr e4 \<Rightarrow> Inr (e1 @ e2 @ e3 @ e4)))))"

text \<open>The first loop: the first line that throws ends it.\<close>

fun scan_lines :: "string list \<Rightarrow> error + element list" where
  "scan_lines [] = Inr []"
| "scan_lines (line # lines) =
     (case line_elements line of
        Inl e \<Rightarrow> Inl e
      | Inr es \<Rightarrow> (case scan_lines lines of Inl e \<Rightarrow> Inl e | Inr rest \<Rightarrow> Inr (es @ rest)))"

subsection \<open>The second loop: elements to versions\<close>

text \<open>
  The state of the second loop is the array \<^verbatim>\<open>versions\<close> and the variable
  \<^verbatim>\<open>currentVersion\<close>. \<^verbatim>\<open>currentVersion\<close> starts as an object that is in no array; from the first
  header on it is the object that was pushed last on \<^verbatim>\<open>versions\<close>, so what the loop pushes
  on \<^verbatim>\<open>currentVersion.sections\<close> shows in the last element of \<^verbatim>\<open>versions\<close>. \<open>write_back\<close> is
  that sharing.
\<close>

record build_state =
  versions :: "version_rec list"
  currentVersion :: version_rec

definition initial_version :: version_rec where
  "initial_version = \<lparr>header = \<lparr>version = [], date = [], url = Some []\<rparr>, sections = []\<rparr>"

definition initial_state :: build_state where
  "initial_state = \<lparr>versions = [], currentVersion = initial_version\<rparr>"

definition write_back :: "version_rec list \<Rightarrow> version_rec \<Rightarrow> version_rec list" where
  "write_back vs cur = (if vs = [] then [] else butlast vs @ [cur])"

text \<open>
  The body of the second loop. For an item, \<^verbatim>\<open>currentVersion.sections[length - 1]\<close> is
  \<^verbatim>\<open>undefined\<close> when the array is empty, and \<^verbatim>\<open>section.items\<close> throws.
\<close>

fun build_step :: "build_state \<Rightarrow> element \<Rightarrow> error + build_state" where
  "build_step st (HeaderEl raw v d u) =
     (let cur = \<lparr>header = \<lparr>version = v, date = d, url = u\<rparr>, sections = []\<rparr>
      in Inr \<lparr>versions = versions st @ [cur], currentVersion = cur\<rparr>)"
| "build_step st (SectionEl raw t) =
     (let cur = currentVersion st;
          cur' = cur\<lparr>sections := sections cur @ [\<lparr>title = t, items = []\<rparr>]\<rparr>
      in Inr \<lparr>versions = write_back (versions st) cur', currentVersion = cur'\<rparr>)"
| "build_step st (ItemEl raw rs) =
     (let cur = currentVersion st
      in case sections cur of
           [] \<Rightarrow> Inl UndefinedItems
         | s # ss \<Rightarrow>
             (let sec = last (s # ss);
                  sec' = sec\<lparr>items := items sec @ [\<lparr>item = None, runs = rs\<rparr>]\<rparr>;
                  cur' = cur\<lparr>sections := butlast (s # ss) @ [sec']\<rparr>
              in Inr \<lparr>versions = write_back (versions st) cur', currentVersion = cur'\<rparr>))"

fun build :: "build_state \<Rightarrow> element list \<Rightarrow> error + build_state" where
  "build st [] = Inr st"
| "build st (e # es) = (case build_step st e of Inl err \<Rightarrow> Inl err | Inr st' \<Rightarrow> build st' es)"

text \<open>\<^verbatim>\<open>parseMarkdown\<close> on the lines of the document, and on the document.\<close>

definition parse_lines :: "string list \<Rightarrow> error + version_rec list" where
  "parse_lines lines =
     (case scan_lines lines of
        Inl e \<Rightarrow> Inl e
      | Inr elements \<Rightarrow>
          (case build initial_state elements of Inl e \<Rightarrow> Inl e | Inr st \<Rightarrow> Inr (versions st)))"

definition parseMarkdown :: "string \<Rightarrow> error + version_rec list" where
  "parseMarkdown markdown = parse_lines (js_split markdown [CHR 0x0A])"

subsection \<open>The renderer\<close>

text \<open>
  The blocks of a message.
  \<^item> \<open>HeaderBlock t\<close> is \<^verbatim>\<open>{ type: 'header', text: { type: 'plain_text', text: t } }\<close>.
  \<^item> \<open>SectionBlock t\<close> is \<^verbatim>\<open>{ type: 'section', text: { type: 'mrkdwn', text: t } }\<close>.
  \<^item> \<open>RichTextBlock es\<close> is \<^verbatim>\<open>{ type: 'rich_text', elements: es }\<close>.
  \<^item> \<open>RichTextSection is\<close> is \<^verbatim>\<open>{ type: 'rich_text_section', elements: is }\<close>.
  \<^item> \<open>RichTextList ls\<close> is \<^verbatim>\<open>{ type: 'rich_text_list', style: 'bullet', elements: ls' }\<close>,
    where each element of \<open>ls'\<close> is the \<^verbatim>\<open>rich_text_section\<close> of one list of \<open>ls\<close>.
  \<^item> \<open>TextInline t b\<close> is \<^verbatim>\<open>{ type: 'text', text: t }\<close>, with \<^verbatim>\<open>style: { bold: true }\<close> when \<open>b\<close>.
  \<^item> \<open>LinkInline u t\<close> is \<^verbatim>\<open>{ type: 'link', url: u, text: t }\<close>.
\<close>

datatype inline = TextInline "string option" bool | LinkInline string string

datatype rich = RichTextSection "inline list" | RichTextList "inline list list"

datatype block = HeaderBlock string | SectionBlock string | RichTextBlock "rich list"

text \<open>The condition \<^verbatim>\<open>if (version.header.url)\<close>: \<^verbatim>\<open>undefined\<close> and the empty string are falsy.\<close>

fun truthy :: "string option \<Rightarrow> bool" where
  "truthy None = False"
| "truthy (Some s) = (s \<noteq> [])"

fun run_inline :: "run \<Rightarrow> inline" where
  "run_inline (Text t) = TextInline t False"
| "run_inline (Link raw u t) = LinkInline u t"

definition section_block :: "section_rec \<Rightarrow> block" where
  "section_block s =
     RichTextBlock
       [RichTextSection [TextInline (Some (title s @ [CHR 0x0A])) True],
        RichTextList (map (\<lambda>it. map run_inline (runs it)) (items s))]"

text \<open>The leading block: the two branches of \<^verbatim>\<open>if (version.header.url)\<close>.\<close>

fun lead_block :: "header_rec \<Rightarrow> block" where
  "lead_block h =
     (case url h of
        Some u \<Rightarrow>
          (if truthy (Some u)
           then SectionBlock (''<'' @ u @ ''|'' @ version h @ ''> ('' @ date h @ '')'')
           else SectionBlock (version h @ '' ('' @ date h @ '')''))
      | None \<Rightarrow> SectionBlock (version h @ '' ('' @ date h @ '')''))"

text \<open>
  \<^verbatim>\<open>versionToBlocks\<close>. Its argument is \<^verbatim>\<open>versions[0]\<close>, which is \<^verbatim>\<open>undefined\<close> for an empty
  array; \<^verbatim>\<open>version.header\<close> throws then.
\<close>

fun versionToBlocks :: "version_rec option \<Rightarrow> error + block list" where
  "versionToBlocks None = Inl UndefinedHeader"
| "versionToBlocks (Some v) = Inr (lead_block (header v) # map section_block (sections v))"

text \<open>\<^verbatim>\<open>addHeader\<close>: \<^verbatim>\<open>blocks.unshift(...header)\<close>, as the new value of the array.\<close>

definition addHeader :: "block list \<Rightarrow> string \<Rightarrow> block list" where
  "addHeader blocks serviceName = HeaderBlock (''Release Note - '' @ serviceName) # blocks"

subsection \<open>The pipeline\<close>

text \<open>
  \<^verbatim>\<open>run\<close>, from the text of the changelog on. Reading the inputs and the file, and the
  request of \<^verbatim>\<open>sendMessage\<close>, are outside the model: \<open>Sent blocks\<close> is the call
  \<^verbatim>\<open>sendMessage(blocks, webhookUrl)\<close>, and \<open>Failed e\<close> is the \<^verbatim>\<open>catch\<close> branch, which logs \<open>e\<close>
  and calls \<^verbatim>\<open>core.setFailed\<close>.
\<close>

datatype outcome = Failed error | Sent "block list"

fun first :: "'a list \<Rightarrow> 'a option" where
  "first [] = None"
| "first (x # xs) = Some x"

definition run :: "string \<Rightarrow> string \<Rightarrow> outcome" where
  "run serviceName markdown =
     (case parseMarkdown markdown of
        Inl e \<Rightarrow> Failed e
      | Inr vs \<Rightarrow>
          (case versionToBlocks (first vs) of
             Inl e \<Rightarrow> Failed e
           | Inr blocks \<Rightarrow> Sent (addHeader blocks serviceName)))"

subsection \<open>Notions of the statements\<close>

text \<open>A recognized header line: a line that passes one of the two header conditions.\<close>

definition header_line :: "string \<Rightarrow> bool" where
  "header_line line = (bracket_header line \<or> bare_header line)"

text \<open>The headers that a list of elements makes the second loop push, in order.\<close>

fun element_headers :: "element list \<Rightarrow> header_rec list" where
  "element_headers [] = []"
| "element_headers (HeaderEl raw v d u # es) = \<lparr>version = v, date = d, url = u\<rparr> # element_headers es"
| "element_headers (e # es) = element_headers es"

text \<open>
  The sharing of the second loop as a property of its state: once \<^verbatim>\<open>versions\<close> is not empty,
  \<^verbatim>\<open>currentVersion\<close> is its last element.
\<close>

definition linked :: "build_state \<Rightarrow> bool" where
  "linked st = (versions st = [] \<or> last (versions st) = currentVersion st)"

text \<open>Lists of elements that hold section elements only, and lists that hold none.\<close>

fun section_only :: "element list \<Rightarrow> bool" where
  "section_only [] = True"
| "section_only (SectionEl raw t # es) = section_only es"
| "section_only (e # es) = False"

fun no_section :: "element list \<Rightarrow> bool" where
  "no_section [] = True"
| "no_section (SectionEl raw t # es) = False"
| "no_section (e # es) = no_section es"

text \<open>
  The text of a run as a concatenation of the texts reads it
  (\<^verbatim>\<open>runs.map((r) => r.text).join('')\<close>, where \<^verbatim>\<open>undefined\<close> joins as the empty string).
\<close>

fun run_text :: "run \<Rightarrow> string" where
  "run_text (Text None) = []"
| "run_text (Text (Some t)) = t"
| "run_text (Link raw u t) = t"

text \<open>
  A date is four digits, \<^verbatim>\<open>-\<close>, two digits, \<^verbatim>\<open>-\<close> and two digits. \<open>date_prefix s\<close>: \<open>s\<close> begins
  with a date; \<open>has_date s\<close>: a date is a substring of \<open>s\<close>; \<open>first_date s\<close>: the date in \<open>s\<close> that
  begins first.
\<close>

fun matches_classes :: "cls list \<Rightarrow> string \<Rightarrow> bool" where
  "matches_classes [] s = True"
| "matches_classes (c # cs) [] = False"
| "matches_classes (c # cs) (x # xs) = (cls_ok c x \<and> matches_classes cs xs)"

definition date_classes :: "cls list" where
  "date_classes =
     [Digit, Digit, Digit, Digit, Lit CHR ''-'', Digit, Digit, Lit CHR ''-'', Digit, Digit]"

definition date_prefix :: "string \<Rightarrow> bool" where
  "date_prefix s = matches_classes date_classes s"

definition is_date :: "string \<Rightarrow> bool" where
  "is_date d = (length d = 10 \<and> date_prefix d)"

fun has_date :: "string \<Rightarrow> bool" where
  "has_date [] = False"
| "has_date (x # xs) = (date_prefix (x # xs) \<or> has_date xs)"

fun first_date :: "string \<Rightarrow> string option" where
  "first_date [] = None"
| "first_date (x # xs) = (if date_prefix (x # xs) then Some (take 10 (x # xs)) else first_date xs)"

text \<open>\<open>has_paren s\<close>: \<open>s\<close> has a \<^verbatim>\<open>(\<close> with a \<^verbatim>\<open>)\<close> somewhere behind it.\<close>

definition has_paren :: "string \<Rightarrow> bool" where
  "has_paren s = (CHR '')'' \<in> set (dropWhile (\<lambda>c. c \<noteq> CHR ''('') s))"

text \<open>The number of capturing groups of a regular expression.\<close>

fun captures :: "regex \<Rightarrow> nat" where
  "captures [] = 0"
| "captures (CapLazy c # re) = Suc (captures re)"
| "captures (a # re) = captures re"

section \<open>Properties\<close>

subsection \<open>Prefixes and the four conditions\<close>

lemma startsWith_iff: "startsWith s p \<longleftrightarrow> (\<exists>t. s = p @ t)"
  unfolding startsWith_def
  by (metis append_eq_conv_conj append_take_drop_id)

lemma js_replace_prefix: "startsWith s p \<Longrightarrow> js_replace p r s = r @ drop (length p) s"
  by (cases s) (auto simp: startsWith_def)

lemma match_at_Inl: "match_at re s i = Inl e \<Longrightarrow> e = NullMatch"
  by (auto simp: match_at_def split: option.splits)

lemma bracket_not_bare: "bracket_header l \<Longrightarrow> \<not> bare_header l"
  by (auto simp: bracket_header_def bare_header_def startsWith_iff re_bare_header_def)

lemma bracket_not_section: "bracket_header l \<Longrightarrow> \<not> startsWith l ''### ''"
  by (auto simp: bracket_header_def startsWith_iff)

lemma bracket_not_item: "bracket_header l \<Longrightarrow> \<not> startsWith l ''* ''"
  by (auto simp: bracket_header_def startsWith_iff)

lemma bare_header_prefix: "bare_header l \<Longrightarrow> startsWith l ''# ''"
  unfolding bare_header_def re_bare_header_def startsWith_iff
  by (cases l; cases "tl l") (auto split: if_splits)

lemma bare_not_section: "bare_header l \<Longrightarrow> \<not> startsWith l ''### ''"
  by (auto dest!: bare_header_prefix simp: startsWith_iff)

lemma bare_not_item: "bare_header l \<Longrightarrow> \<not> startsWith l ''* ''"
  by (auto dest!: bare_header_prefix simp: startsWith_iff)

lemma section_not_item: "startsWith l ''### '' \<Longrightarrow> \<not> startsWith l ''* ''"
  by (auto simp: startsWith_iff)

text \<open>What one line pushes, when it does not throw: at most one element, of the kind of the
  one condition that the line passes.\<close>

lemma on_bracket_header_Inr:
  "on_bracket_header l = Inr els \<Longrightarrow>
     (if bracket_header l then \<exists>v d u. els = [HeaderEl l v d (Some u)] else els = [])"
  by (auto simp: on_bracket_header_def split: sum.splits if_splits)

lemma on_bare_header_Inr:
  "on_bare_header l = Inr els \<Longrightarrow>
     (if bare_header l then \<exists>v d. els = [HeaderEl l v d None] else els = [])"
  by (auto simp: on_bare_header_def split: sum.splits if_splits)

lemma on_section_eq:
  "on_section l = Inr (if startsWith l ''### '' then [SectionEl l (drop 4 l)] else [])"
  using js_replace_prefix [of l "''### ''" "[]"] by (simp add: on_section_def eval_nat_numeral)

lemma on_item_Inr:
  "on_item l = Inr els \<Longrightarrow> (if startsWith l ''* '' then \<exists>rs. els = [ItemEl l rs] else els = [])"
  by (auto simp: on_item_def split: sum.splits if_splits)

lemma line_elements_Inr:
  assumes "line_elements l = Inr els"
  obtains e1 e2 e3 e4 where "on_bracket_header l = Inr e1" and "on_bare_header l = Inr e2"
    and "on_section l = Inr e3" and "on_item l = Inr e4" and "els = e1 @ e2 @ e3 @ e4"
  using assms by (auto simp: line_elements_def split: sum.splits)

lemma line_elements_bracket:
  assumes "line_elements l = Inr els" and "bracket_header l"
  shows "\<exists>v d u. els = [HeaderEl l v d (Some u)]"
proof -
  have no: "\<not> bare_header l" "\<not> startsWith l ''### ''" "\<not> startsWith l ''* ''"
    using assms(2) bracket_not_bare bracket_not_section bracket_not_item by blast+
  from assms(1) obtain e1 e2 e3 e4 where e: "on_bracket_header l = Inr e1"
    "on_bare_header l = Inr e2" "on_section l = Inr e3" "on_item l = Inr e4"
    "els = e1 @ e2 @ e3 @ e4"
    by (rule line_elements_Inr)
  from on_bare_header_Inr [OF e(2)] on_item_Inr [OF e(4)] e(3) no
  have "e2 = []" "e3 = []" "e4 = []" by (simp_all add: on_section_eq)
  then show ?thesis using on_bracket_header_Inr [OF e(1)] assms(2) e(5) by simp
qed

lemma line_elements_bare:
  assumes "line_elements l = Inr els" and "bare_header l"
  shows "\<exists>v d. els = [HeaderEl l v d None]"
proof -
  have no: "\<not> bracket_header l" "\<not> startsWith l ''### ''" "\<not> startsWith l ''* ''"
    using assms(2) bracket_not_bare bare_not_section bare_not_item by blast+
  from assms(1) obtain e1 e2 e3 e4 where e: "on_bracket_header l = Inr e1"
    "on_bare_header l = Inr e2" "on_section l = Inr e3" "on_item l = Inr e4"
    "els = e1 @ e2 @ e3 @ e4"
    by (rule line_elements_Inr)
  from on_bracket_header_Inr [OF e(1)] on_item_Inr [OF e(4)] e(3) no
  have "e1 = []" "e3 = []" "e4 = []" by (simp_all add: on_section_eq)
  then show ?thesis using on_bare_header_Inr [OF e(2)] assms(2) e(5) by simp
qed

lemma line_elements_header:
  assumes "line_elements l = Inr els" and "header_line l"
  shows "\<exists>v d u. els = [HeaderEl l v d u]"
  using assms line_elements_bracket [of l els] line_elements_bare [of l els]
  by (auto simp: header_line_def)

lemma line_elements_section:
  assumes "startsWith l ''### ''"
  shows "line_elements l = Inr [SectionEl l (drop 4 l)]"
proof -
  have "\<not> bracket_header l" "\<not> bare_header l" "\<not> startsWith l ''* ''"
    using assms bracket_not_section bare_not_section section_not_item by blast+
  then show ?thesis
    using assms
    by (simp add: line_elements_def on_bracket_header_def on_bare_header_def on_section_eq
        on_item_def)
qed

lemma line_elements_item:
  assumes "line_elements l = Inr els" and "startsWith l ''* ''"
  shows "\<exists>rs. els = [ItemEl l rs]"
proof -
  have no: "\<not> bracket_header l" "\<not> bare_header l" "\<not> startsWith l ''### ''"
    using assms(2) bracket_not_item bare_not_item section_not_item by blast+
  from assms(1) obtain e1 e2 e3 e4 where e: "on_bracket_header l = Inr e1"
    "on_bare_header l = Inr e2" "on_section l = Inr e3" "on_item l = Inr e4"
    "els = e1 @ e2 @ e3 @ e4"
    by (rule line_elements_Inr)
  from on_bracket_header_Inr [OF e(1)] on_bare_header_Inr [OF e(2)] e(3) no
  have "e1 = []" "e2 = []" "e3 = []" by (simp_all add: on_section_eq)
  then show ?thesis using on_item_Inr [OF e(4)] assms(2) e(5) by simp
qed

lemma line_elements_other:
  assumes "\<not> header_line l" and "\<not> startsWith l ''### ''" and "\<not> startsWith l ''* ''"
  shows "line_elements l = Inr []"
  using assms
  by (simp add: line_elements_def on_bracket_header_def on_bare_header_def on_section_eq
      on_item_def header_line_def)

lemma line_elements_no_header:
  assumes "line_elements l = Inr els" and "\<not> header_line l"
  shows "element_headers els = []"
proof -
  consider "startsWith l ''### ''" | "startsWith l ''* ''"
    | "\<not> startsWith l ''### ''" "\<not> startsWith l ''* ''"
    by blast
  then show ?thesis
  proof cases
    case 1
    then show ?thesis using assms(1) line_elements_section [of l] by auto
  next
    case 2
    then show ?thesis using assms(1) line_elements_item [of l els] by auto
  next
    case 3
    then show ?thesis using assms line_elements_other [of l] by auto
  qed
qed

subsection \<open>The two loops\<close>

lemma scan_lines_append:
  "scan_lines (xs @ ys) =
     (case scan_lines xs of
        Inl e \<Rightarrow> Inl e
      | Inr es \<Rightarrow> (case scan_lines ys of Inl e \<Rightarrow> Inl e | Inr fs \<Rightarrow> Inr (es @ fs)))"
  by (induction xs) (simp_all split: sum.splits)

lemma build_append:
  "build st (es @ fs) = (case build st es of Inl e \<Rightarrow> Inl e | Inr st' \<Rightarrow> build st' fs)"
  by (induction es arbitrary: st) (simp_all split: sum.splits)

lemma element_headers_append: "element_headers (es @ fs) = element_headers es @ element_headers fs"
  by (induction es rule: element_headers.induct) simp_all

lemma write_back_headers:
  assumes "linked st" and "header cur = header (currentVersion st)"
  shows "map header (write_back (versions st) cur) = map header (versions st)"
proof (cases "versions st" rule: rev_cases)
  case Nil
  then show ?thesis by (simp add: write_back_def)
next
  case (snoc ys y)
  then have "y = currentVersion st" using assms(1) by (simp add: linked_def)
  then show ?thesis using snoc assms(2) by (simp add: write_back_def)
qed

lemma write_back_linked: "linked \<lparr>versions = write_back vs cur, currentVersion = cur\<rparr>"
  by (simp add: linked_def write_back_def)

lemma build_step_headers:
  assumes "build_step st e = Inr st'" and "linked st"
  shows "linked st' \<and> map header (versions st') = map header (versions st) @ element_headers [e]"
proof (cases e)
  case (HeaderEl raw v d u)
  then show ?thesis using assms by (auto simp: linked_def Let_def)
next
  case (SectionEl raw t)
  then show ?thesis
    using assms write_back_headers [OF assms(2)] by (auto simp: Let_def write_back_linked)
next
  case (ItemEl raw rs)
  then show ?thesis
    using assms write_back_headers [OF assms(2)]
    by (auto simp: Let_def write_back_linked split: list.splits)
qed

lemma build_headers:
  assumes "build st es = Inr st'" and "linked st"
  shows "linked st' \<and> map header (versions st') = map header (versions st) @ element_headers es"
  using assms
proof (induction es arbitrary: st)
  case Nil
  then show ?case by simp
next
  case (Cons e es)
  from Cons.prems obtain st1 where s1: "build_step st e = Inr st1" and s2: "build st1 es = Inr st'"
    by (auto split: sum.splits)
  from build_step_headers [OF s1 Cons.prems(2)] Cons.IH [OF s2]
  have "linked st'"
    and "map header (versions st') = (map header (versions st) @ element_headers [e]) @ element_headers es"
    by auto
  moreover have "element_headers [e] @ element_headers es = element_headers (e # es)"
    by (cases e) auto
  ultimately show ?case by (metis append_assoc)
qed

lemma linked_initial: "linked initial_state"
  by (simp add: linked_def initial_state_def)

lemma scan_lines_headers:
  assumes "scan_lines lines = Inr es"
  shows "list_all2 (\<lambda>l h. line_elements l = Inr [HeaderEl l (version h) (date h) (url h)])
           (filter header_line lines) (element_headers es)"
  using assms
proof (induction lines arbitrary: es)
  case Nil
  then show ?case by simp
next
  case (Cons l lines)
  from Cons.prems obtain e1 e2 where l1: "line_elements l = Inr e1"
    and l2: "scan_lines lines = Inr e2" and es: "es = e1 @ e2"
    by (auto split: sum.splits)
  show ?case
  proof (cases "header_line l")
    case True
    then obtain v d u where "e1 = [HeaderEl l v d u]"
      using line_elements_header [OF l1] by blast
    then show ?thesis using True l1 es Cons.IH [OF l2] by simp
  next
    case False
    then show ?thesis
      using line_elements_no_header [OF l1] es Cons.IH [OF l2]
      by (simp add: element_headers_append)
  qed
qed

subsection \<open>One version per header line\<close>

lemma parse_lines_headers:
  assumes "parse_lines lines = Inr vs"
  shows "list_all2
           (\<lambda>l v. line_elements l =
              Inr [HeaderEl l (version (header v)) (date (header v)) (url (header v))])
           (filter header_line lines) vs"
proof -
  from assms obtain es st where sc: "scan_lines lines = Inr es"
    and b: "build initial_state es = Inr st" and vs: "vs = versions st"
    by (auto simp: parse_lines_def split: sum.splits)
  have "map header vs = element_headers es"
    using build_headers [OF b linked_initial] vs by (simp add: initial_state_def)
  then show ?thesis
    using scan_lines_headers [OF sc] by (metis (no_types, lifting) list_all2_map2 list_all2_mono)
qed

text \<open>
  C5, as the claim states it, fails: the document \<^verbatim>\<open># [1.2.0](http://x/1.2.0)\<close> has one
  recognized header line, and \<^verbatim>\<open>parseMarkdown\<close> throws on it (the line has no date) instead
  of returning one record.
\<close>

theorem header_without_date_throws:
  "filter header_line (js_split ''# [1.2.0](http://x/1.2.0)'' [CHR 0x0A]) = [''# [1.2.0](http://x/1.2.0)'']
   \<and> parseMarkdown ''# [1.2.0](http://x/1.2.0)'' = Inl NullMatch"
  by code_simp

text \<open>
  C5, amended: whenever \<^verbatim>\<open>parseMarkdown\<close> returns, it returns exactly one record per
  recognized header line of the document, in the order of the lines: the \<open>i\<close>-th record has
  the version, date and url of the header element that the \<open>i\<close>-th header line pushes.
  Nothing is sorted, reordered or removed.
\<close>

theorem parseMarkdown_one_version_per_header:
  assumes "parseMarkdown markdown = Inr vs"
  shows "length vs = length (filter header_line (js_split markdown [CHR 0x0A]))
     \<and> list_all2
           (\<lambda>l v. line_elements l =
              Inr [HeaderEl l (version (header v)) (date (header v)) (url (header v))])
           (filter header_line (js_split markdown [CHR 0x0A])) vs"
  using parse_lines_headers [of "js_split markdown [CHR 0x0A]" vs] assms
  by (auto simp: parseMarkdown_def dest: list_all2_lengthD)

theorem parseMarkdown_one_version_per_header_witness:
  "parseMarkdown (''# 2.0.0 (2024-02-01)'' @ [CHR 0x0A] @ ''text'' @ [CHR 0x0A] @ ''## [1.0](u) 2024-01-05'')
     = Inr [\<lparr>header = \<lparr>version = ''2.0.0'', date = ''2024-02-01'', url = None\<rparr>, sections = []\<rparr>,
            \<lparr>header = \<lparr>version = ''1.0'', date = ''2024-01-05'', url = Some ''u''\<rparr>, sections = []\<rparr>]
   \<and> filter header_line
         (js_split (''# 2.0.0 (2024-02-01)'' @ [CHR 0x0A] @ ''text'' @ [CHR 0x0A] @ ''## [1.0](u) 2024-01-05'')
            [CHR 0x0A])
     = [''# 2.0.0 (2024-02-01)'', ''## [1.0](u) 2024-01-05'']
   \<and> length [\<lparr>header = \<lparr>version = ''2.0.0'', date = ''2024-02-01'', url = None\<rparr>, sections = []\<rparr>,
            \<lparr>header = \<lparr>version = ''1.0'', date = ''2024-01-05'', url = Some ''u''\<rparr>, sections = []\<rparr>]
     = length (filter header_line
         (js_split (''# 2.0.0 (2024-02-01)'' @ [CHR 0x0A] @ ''text'' @ [CHR 0x0A] @ ''## [1.0](u) 2024-01-05'')
            [CHR 0x0A]))"
proof -
  have p: "parseMarkdown (''# 2.0.0 (2024-02-01)'' @ [CHR 0x0A] @ ''text'' @ [CHR 0x0A] @ ''## [1.0](u) 2024-01-05'')
     = Inr [\<lparr>header = \<lparr>version = ''2.0.0'', date = ''2024-02-01'', url = None\<rparr>, sections = []\<rparr>,
            \<lparr>header = \<lparr>version = ''1.0'', date = ''2024-01-05'', url = Some ''u''\<rparr>, sections = []\<rparr>]"
    by code_simp
  have f: "filter header_line
         (js_split (''# 2.0.0 (2024-02-01)'' @ [CHR 0x0A] @ ''text'' @ [CHR 0x0A] @ ''## [1.0](u) 2024-01-05'')
            [CHR 0x0A])
     = [''# 2.0.0 (2024-02-01)'', ''## [1.0](u) 2024-01-05'']"
    by code_simp
  show ?thesis
    using parseMarkdown_one_version_per_header [OF p] p f by simp
qed

subsection \<open>The example of the specification\<close>

text \<open>
  C4: the three lines \<^verbatim>\<open># [1.2.0](http://x/1.2.0) (2024-01-05)\<close>, \<^verbatim>\<open>### Features\<close> and
  \<^verbatim>\<open>* Add **foo** support ([#12](http://x/12))\<close> parse to one version \<open>1.2.0\<close> of
  \<open>2024-01-05\<close> with the url \<^verbatim>\<open>http://x/1.2.0\<close>, with one section \<open>Features\<close> that has one item,
  whose runs are the text \<^verbatim>\<open>Add foo support (\<close>, the link to \<^verbatim>\<open>http://x/12\<close> with the text
  \<^verbatim>\<open>#12\<close>, and the text \<^verbatim>\<open>)\<close>. The same holds when the last line ends with a line feed.
\<close>

theorem parseMarkdown_example:
  "parseMarkdown
     (''# [1.2.0](http://x/1.2.0) (2024-01-05)'' @ [CHR 0x0A] @ ''### Features'' @ [CHR 0x0A]
      @ ''* Add **foo** support ([#12](http://x/12))'')
   = Inr [\<lparr>header = \<lparr>version = ''1.2.0'', date = ''2024-01-05'', url = Some ''http://x/1.2.0''\<rparr>,
           sections =
             [\<lparr>title = ''Features'',
               items =
                 [\<lparr>item = None,
                   runs = [Text (Some ''Add foo support (''),
                           Link ''[#12](http://x/12)'' ''http://x/12'' ''#12'',
                           Text (Some '')'')]\<rparr>]\<rparr>]\<rparr>]
   \<and> parseMarkdown
     (''# [1.2.0](http://x/1.2.0) (2024-01-05)'' @ [CHR 0x0A] @ ''### Features'' @ [CHR 0x0A]
      @ ''* Add **foo** support ([#12](http://x/12))'' @ [CHR 0x0A])
   = Inr [\<lparr>header = \<lparr>version = ''1.2.0'', date = ''2024-01-05'', url = Some ''http://x/1.2.0''\<rparr>,
           sections =
             [\<lparr>title = ''Features'',
               items =
                 [\<lparr>item = None,
                   runs = [Text (Some ''Add foo support (''),
                           Link ''[#12](http://x/12)'' ''http://x/12'' ''#12'',
                           Text (Some '')'')]\<rparr>]\<rparr>]\<rparr>]"
  by code_simp

subsection \<open>The header injector\<close>

text \<open>
  C9: for every block sequence and display name, \<^verbatim>\<open>addHeader\<close> gives the sequence whose first
  element is the one header block with the plain text \<^verbatim>\<open>Release Note - \<close> followed by the
  name, and whose other elements are the blocks it was given, unchanged and in their order.
\<close>

theorem addHeader_prepends:
  "addHeader blocks displayName = HeaderBlock (''Release Note - '' @ displayName) # blocks
   \<and> hd (addHeader blocks displayName) = HeaderBlock (''Release Note - '' @ displayName)
   \<and> tl (addHeader blocks displayName) = blocks
   \<and> length (addHeader blocks displayName) = Suc (length blocks)"
  by (simp add: addHeader_def)

subsection \<open>Lines before the first header\<close>

lemma scan_lines_no_header:
  assumes "scan_lines lines = Inr es" and "\<forall>l\<in>set lines. \<not> header_line l"
  shows "element_headers es = []"
proof -
  have "filter header_line lines = []" using assms(2) by (simp add: filter_empty_conv)
  then show ?thesis using scan_lines_headers [OF assms(1)] by simp
qed

lemma build_no_header:
  assumes "build st es = Inr st'" and "element_headers es = []" and "versions st = []"
  shows "versions st' = []"
proof -
  have "linked st" using assms(3) by (simp add: linked_def)
  from build_headers [OF assms(1) this] show ?thesis using assms(2,3) by simp
qed

lemma build_from_header:
  assumes "versions st = []"
  shows "build st (HeaderEl raw v d u # es) = build initial_state (HeaderEl raw v d u # es)"
  using assms by (simp add: initial_state_def Let_def)

lemma scan_lines_header_first:
  assumes "scan_lines (h # lines) = Inr es" and "header_line h"
  shows "\<exists>v d u es'. es = HeaderEl h v d u # es'"
proof -
  from assms(1) obtain e1 e2 where l1: "line_elements h = Inr e1" and es: "es = e1 @ e2"
    by (auto split: sum.splits)
  from line_elements_header [OF l1 assms(2)] es show ?thesis by auto
qed

lemma parse_lines_skip_prefix:
  assumes "parse_lines (pre @ rest) = Inr vs" and "\<forall>l\<in>set pre. \<not> header_line l"
    and "rest = [] \<or> header_line (hd rest)"
  shows "parse_lines rest = Inr vs"
proof -
  from assms(1) obtain es st where sc: "scan_lines (pre @ rest) = Inr es"
    and b: "build initial_state es = Inr st" and vs: "vs = versions st"
    by (auto simp: parse_lines_def split: sum.splits)
  from sc obtain es1 es2 where s1: "scan_lines pre = Inr es1" and s2: "scan_lines rest = Inr es2"
    and es: "es = es1 @ es2"
    by (auto simp: scan_lines_append split: sum.splits)
  from b es obtain st1 where b1: "build initial_state es1 = Inr st1" and b2: "build st1 es2 = Inr st"
    by (auto simp: build_append split: sum.splits)
  have v1: "versions st1 = []"
    using build_no_header [OF b1 scan_lines_no_header [OF s1 assms(2)]]
    by (simp add: initial_state_def)
  show ?thesis
  proof (cases rest)
    case Nil
    then have "es2 = []" using s2 by simp
    then have "st = st1" using b2 by simp
    then show ?thesis using Nil v1 vs by (simp add: parse_lines_def initial_state_def)
  next
    case (Cons h rest')
    then have "header_line h" using assms(3) by simp
    from scan_lines_header_first [OF s2 [unfolded Cons] this]
    obtain v d u es' where "es2 = HeaderEl h v d u # es'" by blast
    then have "build initial_state es2 = Inr st"
      using b2 build_from_header [OF v1] by simp
    then show ?thesis using s2 vs by (simp add: parse_lines_def)
  qed
qed

text \<open>Lines that are neither headers nor items never throw, and leave \<^verbatim>\<open>versions\<close> empty.\<close>

lemma section_only_append: "section_only (es @ fs) = (section_only es \<and> section_only fs)"
  by (induction es rule: section_only.induct) simp_all

lemma scan_lines_sections:
  assumes "\<forall>l\<in>set lines. \<not> header_line l \<and> \<not> startsWith l ''* ''"
  shows "\<exists>es. scan_lines lines = Inr es \<and> section_only es"
  using assms
proof (induction lines)
  case Nil
  then show ?case by simp
next
  case (Cons l lines)
  then obtain es where es: "scan_lines lines = Inr es" "section_only es" by auto
  have l: "\<not> header_line l" "\<not> startsWith l ''* ''" using Cons.prems by auto
  show ?case
  proof (cases "startsWith l ''### ''")
    case True
    then show ?thesis using es line_elements_section [OF True] by simp
  next
    case False
    then show ?thesis using es line_elements_other [OF l(1) False l(2)] by simp
  qed
qed

lemma build_sections:
  assumes "section_only es" and "versions st = []"
  shows "\<exists>st'. build st es = Inr st' \<and> versions st' = []"
  using assms
proof (induction es arbitrary: st rule: section_only.induct)
  case 1
  then show ?case by simp
next
  case (2 raw t es)
  have "\<exists>st1. build_step st (SectionEl raw t) = Inr st1 \<and> versions st1 = []"
    using "2.prems"(2) by (simp add: Let_def write_back_def)
  then obtain st1 where s: "build_step st (SectionEl raw t) = Inr st1" "versions st1 = []" by blast
  from "2.IH" [OF _ s(2)] "2.prems"(1) s(1) show ?case by simp
qed simp_all

lemma parse_lines_sections_prefix:
  assumes "\<forall>l\<in>set pre. \<not> header_line l \<and> \<not> startsWith l ''* ''"
    and "rest = [] \<or> header_line (hd rest)"
  shows "parse_lines (pre @ rest) = parse_lines rest"
proof -
  from scan_lines_sections [OF assms(1)] obtain es1 where s1: "scan_lines pre = Inr es1"
    and so: "section_only es1" by blast
  from build_sections [OF so, of initial_state] obtain st1
    where b1: "build initial_state es1 = Inr st1" and v1: "versions st1 = []"
    by (auto simp: initial_state_def)
  show ?thesis
  proof (cases "scan_lines rest")
    case (Inl e)
    then show ?thesis using s1 by (simp add: parse_lines_def scan_lines_append)
  next
    case (Inr es2)
    have left: "parse_lines (pre @ rest) =
        (case build st1 es2 of Inl e \<Rightarrow> Inl e | Inr st \<Rightarrow> Inr (versions st))"
      using s1 Inr b1 by (simp add: parse_lines_def scan_lines_append build_append)
    have right: "parse_lines rest =
        (case build initial_state es2 of Inl e \<Rightarrow> Inl e | Inr st \<Rightarrow> Inr (versions st))"
      using Inr by (simp add: parse_lines_def)
    show ?thesis
    proof (cases rest)
      case Nil
      then have "es2 = []" using Inr by simp
      then show ?thesis using left right v1 by (simp add: initial_state_def)
    next
      case (Cons h rest')
      then have "header_line h" using assms(2) by simp
      from scan_lines_header_first [OF Inr [unfolded Cons] this]
      obtain v d u es' where "es2 = HeaderEl h v d u # es'" by blast
      then have "build st1 es2 = build initial_state es2"
        using build_from_header [OF v1] by simp
      then show ?thesis using left right by simp
    qed
  qed
qed

subsection \<open>The errors of the first loop\<close>

lemma link_loop_error:
  "link_loop links secs cpy = Inl e \<Longrightarrow> e = NullMatch \<or> e = UndefinedSplit"
proof (induction links arbitrary: secs cpy)
  case Nil
  then show ?case by simp
next
  case (Cons link links)
  show ?case
  proof (cases "match_at re_paren link 1")
    case (Inl e1)
    then show ?thesis using Cons.prems match_at_Inl [OF Inl] by simp
  next
    case u: (Inr u)
    show ?thesis
    proof (cases "match_at re_bracket link 1")
      case (Inl e2)
      then show ?thesis using Cons.prems u match_at_Inl [OF Inl] by simp
    next
      case t: (Inr t)
      show ?thesis
      proof (cases cpy)
        case None
        then show ?thesis using Cons.prems u t by simp
      next
        case (Some c)
        then show ?thesis using Cons.prems u t Cons.IH by (simp add: Let_def)
      qed
    qed
  qed
qed

lemma on_item_error: "on_item l = Inl e \<Longrightarrow> e = NullMatch \<or> e = UndefinedSplit"
proof -
  assume a: "on_item l = Inl e"
  then have "item_runs l = Inl e" by (auto simp: on_item_def split: if_splits sum.splits)
  then have "link_loop (match_all re_link 0 (normalize l)) [] (Some (normalize l)) = Inl e"
    by (auto simp: item_runs_def Let_def split: sum.splits)
  then show ?thesis by (rule link_loop_error)
qed

lemma on_bracket_header_error: "on_bracket_header l = Inl e \<Longrightarrow> e = NullMatch"
  by (auto simp: on_bracket_header_def split: if_splits sum.splits dest: match_at_Inl)

lemma on_bare_header_error: "on_bare_header l = Inl e \<Longrightarrow> e = NullMatch"
  by (auto simp: on_bare_header_def split: if_splits sum.splits dest: match_at_Inl)

lemma line_elements_error:
  assumes "line_elements l = Inl e"
  shows "e = NullMatch \<or> e = UndefinedSplit"
proof (cases "on_bracket_header l")
  case (Inl e1)
  then show ?thesis using assms on_bracket_header_error [OF Inl] by (simp add: line_elements_def)
next
  case e1: (Inr e1)
  show ?thesis
  proof (cases "on_bare_header l")
    case (Inl e2)
    then show ?thesis
      using assms e1 on_bare_header_error [OF Inl] by (simp add: line_elements_def)
  next
    case e2: (Inr e2)
    show ?thesis
    proof (cases "on_item l")
      case (Inl e4)
      then show ?thesis
        using assms e1 e2 on_item_error [OF Inl] by (simp add: line_elements_def on_section_eq)
    next
      case (Inr e4)
      then show ?thesis using assms e1 e2 by (simp add: line_elements_def on_section_eq)
    qed
  qed
qed

lemma scan_lines_error: "scan_lines lines = Inl e \<Longrightarrow> e = NullMatch \<or> e = UndefinedSplit"
proof (induction lines)
  case Nil
  then show ?case by simp
next
  case (Cons l lines)
  show ?case
  proof (cases "line_elements l")
    case (Inl e1)
    then show ?thesis using Cons.prems line_elements_error [OF Inl] by simp
  next
    case (Inr es)
    then show ?thesis using Cons by (simp split: sum.splits)
  qed
qed

subsection \<open>An item with no section\<close>

lemma no_section_append: "no_section (es @ fs) = (no_section es \<and> no_section fs)"
  by (induction es rule: no_section.induct) simp_all

lemma line_elements_no_section:
  assumes "line_elements l = Inr els" and "\<not> startsWith l ''### ''"
  shows "no_section els"
proof -
  from assms(1) obtain e1 e2 e3 e4 where e: "on_bracket_header l = Inr e1"
    "on_bare_header l = Inr e2" "on_section l = Inr e3" "on_item l = Inr e4"
    "els = e1 @ e2 @ e3 @ e4"
    by (rule line_elements_Inr)
  have "no_section e1" using on_bracket_header_Inr [OF e(1)] by (auto split: if_splits)
  moreover have "no_section e2" using on_bare_header_Inr [OF e(2)] by (auto split: if_splits)
  moreover have "no_section e3" using e(3) assms(2) by (simp add: on_section_eq)
  moreover have "no_section e4" using on_item_Inr [OF e(4)] by (auto split: if_splits)
  ultimately show ?thesis using e(5) by (simp add: no_section_append)
qed

lemma scan_lines_no_section:
  assumes "scan_lines lines = Inr es" and "\<forall>l\<in>set lines. \<not> startsWith l ''### ''"
  shows "no_section es"
  using assms
proof (induction lines arbitrary: es)
  case Nil
  then show ?case by simp
next
  case (Cons l lines)
  from Cons.prems(1) obtain e1 e2 where l1: "line_elements l = Inr e1"
    and l2: "scan_lines lines = Inr e2" and es: "es = e1 @ e2"
    by (auto split: sum.splits)
  from line_elements_no_section [OF l1] Cons.IH [OF l2] Cons.prems(2) es
  show ?case by (simp add: no_section_append)
qed

lemma build_no_section:
  assumes "build st es = Inr st'" and "no_section es" and "sections (currentVersion st) = []"
  shows "sections (currentVersion st') = []"
  using assms
proof (induction es arbitrary: st)
  case Nil
  then show ?case by simp
next
  case (Cons e es)
  from Cons.prems(1) obtain st1 where s: "build_step st e = Inr st1"
    and b: "build st1 es = Inr st'"
    by (auto split: sum.splits)
  have "no_section es \<and> sections (currentVersion st1) = []"
  proof (cases e)
    case (HeaderEl raw v d u)
    then show ?thesis using s Cons.prems(2) by (auto simp: Let_def)
  next
    case (SectionEl raw t)
    then show ?thesis using Cons.prems(2) by simp
  next
    case (ItemEl raw rs)
    then show ?thesis using s Cons.prems(3) by (simp add: Let_def)
  qed
  then show ?case using Cons.IH [OF b] by simp
qed

lemma build_error: "build st es = Inl e \<Longrightarrow> e = UndefinedItems"
proof (induction es arbitrary: st)
  case Nil
  then show ?case by simp
next
  case (Cons x es)
  show ?case
  proof (cases "build_step st x")
    case (Inl e')
    then have "e' = UndefinedItems"
      by (cases x) (auto simp: Let_def split: list.splits)
    then show ?thesis using Cons.prems Inl by simp
  next
    case (Inr st1)
    then show ?thesis using Cons by simp
  qed
qed

lemma parse_lines_item_without_section:
  assumes "lines = pre @ [h] @ mid @ [it] @ post"
    and "header_line h"
    and "\<forall>l\<in>set mid. \<not> startsWith l ''### ''"
    and "startsWith it ''* ''"
  shows "\<exists>e. parse_lines lines = Inl e"
    and "scan_lines lines = Inr es \<Longrightarrow> parse_lines lines = Inl UndefinedItems"
proof -
  have main: "build initial_state es = Inl UndefinedItems" if sc: "scan_lines lines = Inr es" for es
  proof -
    from sc [unfolded assms(1)] obtain e_pre e_h e_mid e_it e_post where
      parts: "scan_lines pre = Inr e_pre" "scan_lines [h] = Inr e_h" "scan_lines mid = Inr e_mid"
        "scan_lines [it] = Inr e_it" "scan_lines post = Inr e_post"
      and es: "es = e_pre @ e_h @ e_mid @ e_it @ e_post"
      by (auto simp: scan_lines_append split: sum.splits)
    from parts(2) obtain v d u where eh: "e_h = [HeaderEl h v d u]"
      using scan_lines_header_first [OF _ assms(2)] 
        line_elements_header [OF _ assms(2)] by (auto split: sum.splits)
    from parts(4) obtain rs where ei: "e_it = [ItemEl it rs]"
      using line_elements_item [OF _ assms(4)] by (auto split: sum.splits)
    have nm: "no_section e_mid" using scan_lines_no_section [OF parts(3) assms(3)] .
    show ?thesis
    proof (cases "build initial_state e_pre")
      case (Inl e)
      then have "build initial_state es = Inl e" by (simp add: es build_append)
      then show ?thesis using build_error by blast
    next
      case (Inr s1)
      obtain s2 where s2: "build_step s1 (HeaderEl h v d u) = Inr s2"
        and c2: "sections (currentVersion s2) = []"
        by (simp add: Let_def)
      show ?thesis
      proof (cases "build s2 e_mid")
        case (Inl e)
        then have "build initial_state es = Inl e"
          using Inr s2 by (simp add: es eh build_append)
        then show ?thesis using build_error by blast
      next
        case s3: (Inr s3)
        have "sections (currentVersion s3) = []" using build_no_section [OF s3 nm c2] .
        then have "build_step s3 (ItemEl it rs) = Inl UndefinedItems" by (simp add: Let_def)
        then show ?thesis using Inr s2 s3 by (simp add: es eh ei build_append)
      qed
    qed
  qed
  show "scan_lines lines = Inr es \<Longrightarrow> parse_lines lines = Inl UndefinedItems"
    using main by (simp add: parse_lines_def)
  show "\<exists>e. parse_lines lines = Inl e"
  proof (cases "scan_lines lines")
    case (Inl e)
    then show ?thesis by (simp add: parse_lines_def)
  next
    case (Inr es')
    then show ?thesis using main [OF Inr] by (simp add: parse_lines_def)
  qed
qed

subsection \<open>What the second loop does before the first header\<close>

lemma element_headers_Cons_Nil:
  "element_headers (e # es) = [] \<Longrightarrow> element_headers [e] = [] \<and> element_headers es = []"
  by (cases e) simp_all

lemma build_step_section:
  "build_step st (SectionEl raw t) =
     Inr \<lparr>versions = write_back (versions st) ((currentVersion st)
              \<lparr>sections := sections (currentVersion st) @ [\<lparr>title = t, items = []\<rparr>]\<rparr>),
          currentVersion = (currentVersion st)
              \<lparr>sections := sections (currentVersion st) @ [\<lparr>title = t, items = []\<rparr>]\<rparr>\<rparr>"
  by (simp add: Let_def)

lemma build_step_keeps_header:
  assumes "build_step st e = Inr st'" and "element_headers [e] = []"
  shows "header (currentVersion st') = header (currentVersion st)"
proof (cases e)
  case (HeaderEl raw v d u)
  then show ?thesis using assms(2) by simp
next
  case (SectionEl raw t)
  then show ?thesis using assms(1) by (auto simp: Let_def)
next
  case (ItemEl raw rs)
  then show ?thesis using assms(1) by (auto simp: Let_def split: list.splits)
qed

lemma build_keeps_header:
  assumes "build st es = Inr st'" and "element_headers es = []"
  shows "header (currentVersion st') = header (currentVersion st)"
  using assms
proof (induction es arbitrary: st)
  case Nil
  then show ?case by simp
next
  case (Cons e es)
  from Cons.prems(1) obtain st1 where s: "build_step st e = Inr st1"
    and b: "build st1 es = Inr st'"
    by (auto split: sum.splits)
  from element_headers_Cons_Nil [OF Cons.prems(2)]
  have h: "element_headers [e] = []" "element_headers es = []" by simp_all
  from build_step_keeps_header [OF s h(1)] Cons.IH [OF b h(2)] show ?case by simp
qed

text \<open>Once the initial object has a section, items and sections go to it and nothing throws.\<close>

lemma build_step_attached:
  assumes "element_headers [e] = []" and "versions st = []"
    and "sections (currentVersion st) \<noteq> []"
  shows "\<exists>st'. build_step st e = Inr st' \<and> versions st' = []
           \<and> sections (currentVersion st') \<noteq> []"
proof (cases e)
  case (HeaderEl raw v d u)
  then show ?thesis using assms(1) by simp
next
  case (SectionEl raw t)
  then show ?thesis using assms(2) by (simp add: Let_def write_back_def)
next
  case (ItemEl raw rs)
  from assms(3) obtain s ss where "sections (currentVersion st) = s # ss"
    by (meson neq_Nil_conv)
  then show ?thesis using ItemEl assms(2) by (simp add: Let_def write_back_def)
qed

lemma build_attached:
  assumes "element_headers es = []" and "versions st = []"
    and "sections (currentVersion st) \<noteq> []"
  shows "\<exists>st'. build st es = Inr st' \<and> versions st' = []"
  using assms
proof (induction es arbitrary: st)
  case Nil
  then show ?case by simp
next
  case (Cons e es)
  from element_headers_Cons_Nil [OF Cons.prems(1)]
  have h: "element_headers [e] = []" "element_headers es = []" by simp_all
  from build_step_attached [OF h(1) Cons.prems(2,3)] obtain st1
    where s: "build_step st e = Inr st1" and v: "versions st1 = []"
      and c: "sections (currentVersion st1) \<noteq> []"
    by blast
  from Cons.IH [OF h(2) v c] s show ?case by simp
qed

lemma parse_lines_after_prefix:
  assumes "scan_lines pre = Inr es1" and "build initial_state es1 = Inr st1"
    and "versions st1 = []" and "rest = [] \<or> header_line (hd rest)"
  shows "parse_lines (pre @ rest) = parse_lines rest"
proof (cases "scan_lines rest")
  case (Inl e)
  then show ?thesis using assms(1) by (simp add: parse_lines_def scan_lines_append)
next
  case (Inr es2)
  have left: "parse_lines (pre @ rest) =
      (case build st1 es2 of Inl e \<Rightarrow> Inl e | Inr st \<Rightarrow> Inr (versions st))"
    using assms(1,2) Inr by (simp add: parse_lines_def scan_lines_append build_append)
  have right: "parse_lines rest =
      (case build initial_state es2 of Inl e \<Rightarrow> Inl e | Inr st \<Rightarrow> Inr (versions st))"
    using Inr by (simp add: parse_lines_def)
  show ?thesis
  proof (cases rest)
    case Nil
    then have "es2 = []" using Inr by simp
    then show ?thesis using left right assms(3) by (simp add: initial_state_def)
  next
    case (Cons h rest')
    then have "header_line h" using assms(4) by simp
    from scan_lines_header_first [OF Inr [unfolded Cons] this]
    obtain v d u es' where "es2 = HeaderEl h v d u # es'" by blast
    then have "build st1 es2 = build initial_state es2"
      using build_from_header [OF assms(3)] by simp
    then show ?thesis using left right by simp
  qed
qed

lemma parse_lines_prefix_empty:
  assumes "parse_lines pre = Inr ps" and "\<forall>l\<in>set pre. \<not> header_line l"
    and "rest = [] \<or> header_line (hd rest)"
  shows "ps = [] \<and> parse_lines (pre @ rest) = parse_lines rest"
proof -
  from assms(1) obtain es st where sc: "scan_lines pre = Inr es"
    and b: "build initial_state es = Inr st" and ps: "ps = versions st"
    by (auto simp: parse_lines_def split: sum.splits)
  have v: "versions st = []"
    using build_no_header [OF b scan_lines_no_header [OF sc assms(2)]]
    by (simp add: initial_state_def)
  from parse_lines_after_prefix [OF sc b v assms(3)] v ps show ?thesis by simp
qed

lemma parse_lines_orphan_section:
  assumes "startsWith l ''### ''"
    and "\<forall>x\<in>set (pre @ [l] @ mid). \<not> header_line x"
    and "\<forall>x\<in>set pre. \<not> startsWith x ''* ''"
    and "scan_lines mid = Inr em"
  shows "parse_lines (pre @ [l] @ mid) = Inr []"
proof -
  have "\<forall>x\<in>set pre. \<not> header_line x \<and> \<not> startsWith x ''* ''"
    using assms(2,3) by simp
  from scan_lines_sections [OF this] obtain es1 where s1: "scan_lines pre = Inr es1"
    and so: "section_only es1" by blast
  from build_sections [OF so, of initial_state] obtain st1
    where b1: "build initial_state es1 = Inr st1" and v1: "versions st1 = []"
    by (auto simp: initial_state_def)
  have sl: "line_elements l = Inr [SectionEl l (drop 4 l)]"
    using line_elements_section [OF assms(1)] .
  obtain st2 where b2: "build_step st1 (SectionEl l (drop 4 l)) = Inr st2"
    and v2: "versions st2 = []" and c2: "sections (currentVersion st2) \<noteq> []"
    using v1 by (simp add: Let_def write_back_def)
  have "\<forall>x\<in>set mid. \<not> header_line x" using assms(2) by simp
  from scan_lines_no_header [OF assms(4) this] have hm: "element_headers em = []" .
  from build_attached [OF hm v2 c2] obtain st3 where b3: "build st2 em = Inr st3"
    and v3: "versions st3 = []" by blast
  have "scan_lines (pre @ [l] @ mid) = Inr (es1 @ [SectionEl l (drop 4 l)] @ em)"
    using s1 sl assms(4) by (simp add: scan_lines_append)
  moreover have "build initial_state (es1 @ [SectionEl l (drop 4 l)] @ em) = Inr st3"
    using b1 b2 b3 by (simp add: build_append)
  ultimately show ?thesis using v3 by (simp add: parse_lines_def)
qed

subsection \<open>A section line before the first header line\<close>

text \<open>
  C1, as the claim states it, fails: the code has no error for a section line that no header
  line precedes. For the document \<^verbatim>\<open>### Features\<close> \<^verbatim>\<open>parseMarkdown\<close> returns the empty
  sequence, and for a document that goes on with a header line it returns the version of
  that header without the section, also when an item line follows the section. The
  section, and the item with it, went to the initial object of \<^verbatim>\<open>currentVersion\<close>, which is
  in no array.
\<close>

theorem orphan_section_returns:
  "parseMarkdown ''### Features'' = Inr []
   \<and> parseMarkdown (''### Features'' @ [CHR 0x0A] @ ''# [1.2.0](http://x/1.2.0) (2024-01-05)'')
     = Inr [\<lparr>header = \<lparr>version = ''1.2.0'', date = ''2024-01-05'', url = Some ''http://x/1.2.0''\<rparr>,
             sections = []\<rparr>]
   \<and> parseMarkdown (''### A'' @ [CHR 0x0A] @ ''* x'' @ [CHR 0x0A] @ ''# [1.0](u) (2024-01-05)'')
     = Inr [\<lparr>header = \<lparr>version = ''1.0'', date = ''2024-01-05'', url = Some ''u''\<rparr>, sections = []\<rparr>]"
  by code_simp

text \<open>
  C1, amended: for every document with a line \<open>l\<close> that begins with \<^verbatim>\<open>### \<close> and has no header
  line before it, that line raises no error and is silently dropped. The line yields one
  section element. When the second loop comes to that element, \<^verbatim>\<open>versions\<close> is empty and
  \<^verbatim>\<open>currentVersion\<close> is still the initial object (it has the header of the initial object);
  the step attaches the section to \<^verbatim>\<open>currentVersion\<close> and leaves \<^verbatim>\<open>versions\<close> empty, so the
  section is in no returned record. With \<open>rest\<close> the lines from the first header line on (or
  no lines, when the document has no header line): whenever \<^verbatim>\<open>parseMarkdown\<close> returns, it
  returns what it returns for \<open>rest\<close> alone; whenever the lines before \<open>rest\<close> parse by
  themselves, they parse to the empty sequence, and \<^verbatim>\<open>parseMarkdown\<close> on the document and on
  \<open>rest\<close> alone agree, be it a result or an error; and the lines before \<open>rest\<close> do parse by
  themselves when no item line stands before \<open>l\<close> and the first loop gets through the lines
  between \<open>l\<close> and \<open>rest\<close>: the item lines behind \<open>l\<close> go to the section of \<open>l\<close> and are
  dropped with it.
\<close>

theorem section_before_first_header_dropped:
  assumes "js_split markdown [CHR 0x0A] = pre @ [l] @ mid @ rest"
    and "startsWith l ''### ''"
    and "\<forall>x\<in>set (pre @ [l] @ mid). \<not> header_line x"
    and "rest = [] \<or> header_line (hd rest)"
  shows "line_elements l = Inr [SectionEl l (drop 4 l)]
     \<and> (\<forall>es st. scan_lines pre = Inr es \<and> build initial_state es = Inr st \<longrightarrow>
           versions st = []
           \<and> header (currentVersion st) = header initial_version
           \<and> build_step st (SectionEl l (drop 4 l))
               = Inr \<lparr>versions = [],
                      currentVersion = (currentVersion st)
                        \<lparr>sections := sections (currentVersion st) @ [\<lparr>title = drop 4 l, items = []\<rparr>]\<rparr>\<rparr>)
     \<and> (\<forall>vs. parseMarkdown markdown = Inr vs \<longrightarrow> parse_lines rest = Inr vs)
     \<and> (\<forall>ps. parse_lines (pre @ [l] @ mid) = Inr ps \<longrightarrow>
           ps = [] \<and> parseMarkdown markdown = parse_lines rest)
     \<and> ((\<forall>x\<in>set pre. \<not> startsWith x ''* '') \<and> (\<exists>em. scan_lines mid = Inr em) \<longrightarrow>
           parse_lines (pre @ [l] @ mid) = Inr [] \<and> parseMarkdown markdown = parse_lines rest)"
proof -
  have lines: "js_split markdown [CHR 0x0A] = (pre @ [l] @ mid) @ rest"
    using assms(1) by simp
  have nh: "\<forall>x\<in>set pre. \<not> header_line x" using assms(3) by simp
  have a: "line_elements l = Inr [SectionEl l (drop 4 l)]"
    using line_elements_section [OF assms(2)] .
  have b: "versions st = []
           \<and> header (currentVersion st) = header initial_version
           \<and> build_step st (SectionEl l (drop 4 l))
               = Inr \<lparr>versions = [],
                      currentVersion = (currentVersion st)
                        \<lparr>sections := sections (currentVersion st) @ [\<lparr>title = drop 4 l, items = []\<rparr>]\<rparr>\<rparr>"
    if sb: "scan_lines pre = Inr es \<and> build initial_state es = Inr st" for es st
  proof -
    from sb have sc: "scan_lines pre = Inr es" and bd: "build initial_state es = Inr st"
      by simp_all
    have he: "element_headers es = []" using scan_lines_no_header [OF sc nh] .
    have v: "versions st = []"
      using build_no_header [OF bd he] by (simp add: initial_state_def)
    have h: "header (currentVersion st) = header initial_version"
      using build_keeps_header [OF bd he] by (simp add: initial_state_def)
    show ?thesis
      using v h by (simp only: build_step_section) (simp add: write_back_def)
  qed
  have c: "parse_lines rest = Inr vs" if "parseMarkdown markdown = Inr vs" for vs
    using parse_lines_skip_prefix [of "pre @ [l] @ mid" rest vs] that assms(3,4) lines
    by (simp add: parseMarkdown_def)
  have d: "ps = [] \<and> parseMarkdown markdown = parse_lines rest"
    if "parse_lines (pre @ [l] @ mid) = Inr ps" for ps
    using parse_lines_prefix_empty [OF that assms(3,4)] lines by (simp add: parseMarkdown_def)
  have e: "parse_lines (pre @ [l] @ mid) = Inr [] \<and> parseMarkdown markdown = parse_lines rest"
    if h: "(\<forall>x\<in>set pre. \<not> startsWith x ''* '') \<and> (\<exists>em. scan_lines mid = Inr em)"
  proof -
    from h obtain em where ni: "\<forall>x\<in>set pre. \<not> startsWith x ''* ''"
      and sm: "scan_lines mid = Inr em" by blast
    have p: "parse_lines (pre @ [l] @ mid) = Inr []"
      using parse_lines_orphan_section [OF assms(2,3) ni sm] .
    from p d [OF p] show ?thesis by simp
  qed
  from a b c d e show ?thesis by blast
qed

theorem section_before_first_header_dropped_witness:
  "js_split (''Changelog'' @ [CHR 0x0A] @ ''### Orphan'' @ [CHR 0x0A] @ ''* lost item'' @ [CHR 0x0A]
      @ ''# [1.0](u) (2024-01-05)'' @ [CHR 0x0A] @ ''### Features'') [CHR 0x0A]
     = [''Changelog''] @ [''### Orphan''] @ [''* lost item''] @ [''# [1.0](u) (2024-01-05)'', ''### Features'']
   \<and> startsWith ''### Orphan'' ''### ''
   \<and> \<not> header_line ''Changelog'' \<and> \<not> header_line ''### Orphan'' \<and> \<not> header_line ''* lost item''
   \<and> header_line ''# [1.0](u) (2024-01-05)''
   \<and> \<not> startsWith ''Changelog'' ''* ''
   \<and> scan_lines [''* lost item''] = Inr [ItemEl ''* lost item'' [Text (Some ''lost item'')]]
   \<and> scan_lines [''Changelog''] = Inr []
   \<and> build initial_state [] = Inr initial_state
   \<and> line_elements ''### Orphan'' = Inr [SectionEl ''### Orphan'' ''Orphan'']
   \<and> build_step initial_state (SectionEl ''### Orphan'' ''Orphan'')
       = Inr \<lparr>versions = [],
              currentVersion = initial_version\<lparr>sections := [\<lparr>title = ''Orphan'', items = []\<rparr>]\<rparr>\<rparr>
   \<and> parse_lines ([''Changelog''] @ [''### Orphan''] @ [''* lost item'']) = Inr []
   \<and> parse_lines [''# [1.0](u) (2024-01-05)'', ''### Features'']
     = Inr [\<lparr>header = \<lparr>version = ''1.0'', date = ''2024-01-05'', url = Some ''u''\<rparr>,
             sections = [\<lparr>title = ''Features'', items = []\<rparr>]\<rparr>]
   \<and> parseMarkdown (''Changelog'' @ [CHR 0x0A] @ ''### Orphan'' @ [CHR 0x0A] @ ''* lost item'' @ [CHR 0x0A]
      @ ''# [1.0](u) (2024-01-05)'' @ [CHR 0x0A] @ ''### Features'')
     = Inr [\<lparr>header = \<lparr>version = ''1.0'', date = ''2024-01-05'', url = Some ''u''\<rparr>,
             sections = [\<lparr>title = ''Features'', items = []\<rparr>]\<rparr>]"
proof -
  have s: "js_split (''Changelog'' @ [CHR 0x0A] @ ''### Orphan'' @ [CHR 0x0A] @ ''* lost item'' @ [CHR 0x0A]
      @ ''# [1.0](u) (2024-01-05)'' @ [CHR 0x0A] @ ''### Features'') [CHR 0x0A]
     = [''Changelog''] @ [''### Orphan''] @ [''* lost item''] @ [''# [1.0](u) (2024-01-05)'', ''### Features'']"
    by code_simp
  have p: "startsWith ''### Orphan'' ''### ''" by code_simp
  have n: "\<not> header_line ''Changelog''" "\<not> header_line ''### Orphan''" "\<not> header_line ''* lost item''"
    by code_simp+
  have h: "header_line ''# [1.0](u) (2024-01-05)''" by code_simp
  have i: "\<not> startsWith ''Changelog'' ''* ''" by code_simp
  have sm: "scan_lines [''* lost item''] = Inr [ItemEl ''* lost item'' [Text (Some ''lost item'')]]"
    by code_simp
  have sp: "scan_lines [''Changelog''] = Inr []" by code_simp
  have bp: "build initial_state [] = Inr initial_state" by simp
  have r: "parse_lines [''# [1.0](u) (2024-01-05)'', ''### Features'']
     = Inr [\<lparr>header = \<lparr>version = ''1.0'', date = ''2024-01-05'', url = Some ''u''\<rparr>,
             sections = [\<lparr>title = ''Features'', items = []\<rparr>]\<rparr>]"
    by code_simp
  have a3: "\<forall>x\<in>set ([''Changelog''] @ [''### Orphan''] @ [''* lost item'']). \<not> header_line x"
    using n by simp
  have a4: "[''# [1.0](u) (2024-01-05)'', ''### Features''] = []
      \<or> header_line (hd [''# [1.0](u) (2024-01-05)'', ''### Features''])"
    using h by simp
  have a5: "(\<forall>x\<in>set [''Changelog'']. \<not> startsWith x ''* '')
      \<and> (\<exists>em. scan_lines [''* lost item''] = Inr em)"
    using i sm by simp
  note t = section_before_first_header_dropped [OF s p a3 a4]
  have d: "drop 4 ''### Orphan'' = ''Orphan''" by simp
  have t1: "line_elements ''### Orphan'' = Inr [SectionEl ''### Orphan'' ''Orphan'']"
    using t [THEN conjunct1] d by simp
  have "versions initial_state = []
           \<and> header (currentVersion initial_state) = header initial_version
           \<and> build_step initial_state (SectionEl ''### Orphan'' (drop 4 ''### Orphan''))
               = Inr \<lparr>versions = [],
                      currentVersion = (currentVersion initial_state)
                        \<lparr>sections := sections (currentVersion initial_state)
                            @ [\<lparr>title = drop 4 ''### Orphan'', items = []\<rparr>]\<rparr>\<rparr>"
    using t [THEN conjunct2, THEN conjunct1, THEN spec, THEN spec, THEN mp,
        of "[]" initial_state] sp bp by blast
  then have t2: "build_step initial_state (SectionEl ''### Orphan'' ''Orphan'')
       = Inr \<lparr>versions = [],
              currentVersion = initial_version\<lparr>sections := [\<lparr>title = ''Orphan'', items = []\<rparr>]\<rparr>\<rparr>"
    by (simp add: initial_state_def initial_version_def)
  have t5: "parse_lines ([''Changelog''] @ [''### Orphan''] @ [''* lost item'']) = Inr []
      \<and> parseMarkdown (''Changelog'' @ [CHR 0x0A] @ ''### Orphan'' @ [CHR 0x0A] @ ''* lost item'' @ [CHR 0x0A]
      @ ''# [1.0](u) (2024-01-05)'' @ [CHR 0x0A] @ ''### Features'')
       = parse_lines [''# [1.0](u) (2024-01-05)'', ''### Features'']"
    using t [THEN conjunct2, THEN conjunct2, THEN conjunct2, THEN conjunct2, THEN mp, OF a5] .
  show ?thesis
    apply (intro conjI)
    apply (rule s)
    apply (rule p)
    apply (rule n(1))
    apply (rule n(2))
    apply (rule n(3))
    apply (rule h)
    apply (rule i)
    apply (rule sm)
    apply (rule sp)
    apply (rule bp)
    apply (rule t1)
    apply (rule t2)
    apply (rule t5 [THEN conjunct1])
    apply (rule r)
    apply (simp only: t5 [THEN conjunct2] r)
    done
qed

subsection \<open>A document with no header line\<close>

text \<open>
  C2, as the claim states it, fails: the code has no guard between \<^verbatim>\<open>parseMarkdown\<close> and
  \<^verbatim>\<open>versionToBlocks\<close>. For the document \<^verbatim>\<open>All notable changes\<close> the parser returns the empty
  sequence, \<^verbatim>\<open>versions[0]\<close> is \<^verbatim>\<open>undefined\<close>, the renderer is called on it and throws on
  \<^verbatim>\<open>version.header\<close>; that \<^verbatim>\<open>TypeError\<close> is what \<^verbatim>\<open>run\<close> reports.
\<close>

theorem no_header_renderer_throws:
  "parseMarkdown ''All notable changes'' = Inr []
   \<and> versionToBlocks (first ([] :: version_rec list)) = Inl UndefinedHeader
   \<and> run ''My Service'' ''All notable changes'' = Failed UndefinedHeader"
  by code_simp

text \<open>
  C2, amended: for every document with no recognized header line, \<^verbatim>\<open>run\<close> fails with a
  \<^verbatim>\<open>TypeError\<close> and sends nothing. Either \<^verbatim>\<open>parseMarkdown\<close> throws, or it returns the empty
  sequence; then the renderer is called on \<^verbatim>\<open>undefined\<close>, throws on \<^verbatim>\<open>version.header\<close>, and
  the \<^verbatim>\<open>catch\<close> of \<^verbatim>\<open>run\<close> reports that error.
\<close>

theorem no_header_run_fails:
  assumes "\<forall>l\<in>set (js_split markdown [CHR 0x0A]). \<not> header_line l"
  shows "(\<exists>e. run serviceName markdown = Failed e)
     \<and> (\<forall>vs. parseMarkdown markdown = Inr vs \<longrightarrow>
           vs = [] \<and> versionToBlocks (first vs) = Inl UndefinedHeader
           \<and> run serviceName markdown = Failed UndefinedHeader)"
proof -
  have e: "vs = []" if "parseMarkdown markdown = Inr vs" for vs
  proof -
    have "parse_lines (js_split markdown [CHR 0x0A] @ []) = Inr vs"
      using that by (simp add: parseMarkdown_def)
    from parse_lines_skip_prefix [OF this assms] have "parse_lines [] = Inr vs" by simp
    then show ?thesis by (simp add: parse_lines_def initial_state_def)
  qed
  show ?thesis
  proof (cases "parseMarkdown markdown")
    case (Inl err)
    then show ?thesis by (simp add: run_def)
  next
    case (Inr vs)
    then show ?thesis using e [OF Inr] by (simp add: run_def)
  qed
qed

theorem no_header_run_fails_witness:
  "js_split (''Changelog'' @ [CHR 0x0A] @ ''### Features'') [CHR 0x0A] = [''Changelog'', ''### Features'']
   \<and> \<not> header_line ''Changelog'' \<and> \<not> header_line ''### Features''
   \<and> parseMarkdown (''Changelog'' @ [CHR 0x0A] @ ''### Features'') = Inr []
   \<and> run ''My Service'' (''Changelog'' @ [CHR 0x0A] @ ''### Features'') = Failed UndefinedHeader"
proof -
  have s: "js_split (''Changelog'' @ [CHR 0x0A] @ ''### Features'') [CHR 0x0A] = [''Changelog'', ''### Features'']"
    by code_simp
  have n: "\<not> header_line ''Changelog''" "\<not> header_line ''### Features''" by code_simp+
  have p: "parseMarkdown (''Changelog'' @ [CHR 0x0A] @ ''### Features'') = Inr []" by code_simp
  have "\<forall>l\<in>set (js_split (''Changelog'' @ [CHR 0x0A] @ ''### Features'') [CHR 0x0A]). \<not> header_line l"
    using s n by simp
  from no_header_run_fails [OF this, of "''My Service''"] p
  have "run ''My Service'' (''Changelog'' @ [CHR 0x0A] @ ''### Features'') = Failed UndefinedHeader"
    by blast
  then show ?thesis using s n p by simp
qed

subsection \<open>An item line with no section line\<close>

text \<open>
  C6, as the claim states it, fails: the code has no \<^verbatim>\<open>MalformedDocument\<close> error, and raises
  none of its own. For \<^verbatim>\<open># [1.0](u) (2024-01-05)\<close> followed by \<^verbatim>\<open>* x\<close> what is raised is the
  \<^verbatim>\<open>TypeError\<close> of \<^verbatim>\<open>section.items\<close> on the \<^verbatim>\<open>undefined\<close> last section; with a third line
  \<^verbatim>\<open># [2.0]\<close> it is the \<^verbatim>\<open>TypeError\<close> of the null date match of that third line, raised in the
  first loop before the second loop comes to the item.
\<close>

theorem item_without_section_type_error:
  "parseMarkdown (''# [1.0](u) (2024-01-05)'' @ [CHR 0x0A] @ ''* x'') = Inl UndefinedItems
   \<and> parseMarkdown (''# [1.0](u) (2024-01-05)'' @ [CHR 0x0A] @ ''* x'' @ [CHR 0x0A] @ ''# [2.0]'')
       = Inl NullMatch"
  by code_simp

text \<open>
  C6, amended: for every document in which an item line comes after a recognized header
  line with no section line between the two, \<^verbatim>\<open>parseMarkdown\<close> returns no result: it throws a
  \<^verbatim>\<open>TypeError\<close> of the runtime, and \<^verbatim>\<open>run\<close> reports it, so the item is not dropped silently.
  When the first loop gets through all lines, the error is the \<^verbatim>\<open>TypeError\<close> of
  \<^verbatim>\<open>section.items\<close> on the \<^verbatim>\<open>undefined\<close> last section. When the first loop throws, the error
  is the one of the first line that throws there, the \<^verbatim>\<open>TypeError\<close> of a null match or of
  \<^verbatim>\<open>split\<close> on \<^verbatim>\<open>undefined\<close>; that line need not be the item line.
\<close>

theorem item_without_section_throws:
  assumes "js_split markdown [CHR 0x0A] = pre @ [h] @ mid @ [it] @ post"
    and "header_line h"
    and "\<forall>l\<in>set mid. \<not> startsWith l ''### ''"
    and "startsWith it ''* ''"
  shows "(\<exists>e. parseMarkdown markdown = Inl e \<and> run serviceName markdown = Failed e
            \<and> (e = NullMatch \<or> e = UndefinedSplit \<or> e = UndefinedItems))
     \<and> (\<forall>es. scan_lines (js_split markdown [CHR 0x0A]) = Inr es \<longrightarrow>
           parseMarkdown markdown = Inl UndefinedItems)
     \<and> (\<forall>e. scan_lines (js_split markdown [CHR 0x0A]) = Inl e \<longrightarrow>
           parseMarkdown markdown = Inl e \<and> (e = NullMatch \<or> e = UndefinedSplit))"
proof -
  have b: "parseMarkdown markdown = Inl UndefinedItems"
    if "scan_lines (js_split markdown [CHR 0x0A]) = Inr es" for es
    using parse_lines_item_without_section(2) [OF assms that] by (simp add: parseMarkdown_def)
  have c: "parseMarkdown markdown = Inl e \<and> (e = NullMatch \<or> e = UndefinedSplit)"
    if "scan_lines (js_split markdown [CHR 0x0A]) = Inl e" for e
    using that scan_lines_error [OF that] by (simp add: parseMarkdown_def parse_lines_def)
  have a: "\<exists>e. parseMarkdown markdown = Inl e \<and> run serviceName markdown = Failed e
            \<and> (e = NullMatch \<or> e = UndefinedSplit \<or> e = UndefinedItems)"
  proof (cases "scan_lines (js_split markdown [CHR 0x0A])")
    case (Inl e)
    from c [OF Inl] show ?thesis by (auto simp: run_def)
  next
    case (Inr es)
    from b [OF Inr] show ?thesis by (simp add: run_def)
  qed
  from a b c show ?thesis by blast
qed

theorem item_without_section_throws_witness:
  "js_split (''# [1.0](u) (2024-01-05)'' @ [CHR 0x0A] @ ''notes'' @ [CHR 0x0A] @ ''* fix it'') [CHR 0x0A]
     = [] @ [''# [1.0](u) (2024-01-05)''] @ [''notes''] @ [''* fix it''] @ []
   \<and> header_line ''# [1.0](u) (2024-01-05)''
   \<and> \<not> startsWith ''notes'' ''### ''
   \<and> startsWith ''* fix it'' ''* ''
   \<and> scan_lines ([] @ [''# [1.0](u) (2024-01-05)''] @ [''notes''] @ [''* fix it''] @ [])
     = Inr [HeaderEl ''# [1.0](u) (2024-01-05)'' ''1.0'' ''2024-01-05'' (Some ''u''),
            ItemEl ''* fix it'' [Text (Some ''fix it'')]]
   \<and> parseMarkdown (''# [1.0](u) (2024-01-05)'' @ [CHR 0x0A] @ ''notes'' @ [CHR 0x0A] @ ''* fix it'')
     = Inl UndefinedItems"
proof -
  have s: "js_split (''# [1.0](u) (2024-01-05)'' @ [CHR 0x0A] @ ''notes'' @ [CHR 0x0A] @ ''* fix it'') [CHR 0x0A]
     = [] @ [''# [1.0](u) (2024-01-05)''] @ [''notes''] @ [''* fix it''] @ []"
    by code_simp
  have h: "header_line ''# [1.0](u) (2024-01-05)''" by code_simp
  have m: "\<not> startsWith ''notes'' ''### ''" by code_simp
  have i: "startsWith ''* fix it'' ''* ''" by code_simp
  have sc: "scan_lines ([] @ [''# [1.0](u) (2024-01-05)''] @ [''notes''] @ [''* fix it''] @ [])
     = Inr [HeaderEl ''# [1.0](u) (2024-01-05)'' ''1.0'' ''2024-01-05'' (Some ''u''),
            ItemEl ''* fix it'' [Text (Some ''fix it'')]]"
    by code_simp
  have ms: "\<forall>l\<in>set [''notes'']. \<not> startsWith l ''### ''" using m by simp
  have sc': "scan_lines (js_split (''# [1.0](u) (2024-01-05)'' @ [CHR 0x0A] @ ''notes'' @ [CHR 0x0A] @ ''* fix it'') [CHR 0x0A])
     = Inr [HeaderEl ''# [1.0](u) (2024-01-05)'' ''1.0'' ''2024-01-05'' (Some ''u''),
            ItemEl ''* fix it'' [Text (Some ''fix it'')]]"
    by (simp only: s sc)
  have t: "parseMarkdown (''# [1.0](u) (2024-01-05)'' @ [CHR 0x0A] @ ''notes'' @ [CHR 0x0A] @ ''* fix it'')
     = Inl UndefinedItems"
    using item_without_section_throws [OF s h ms i, of "''My Service''",
        THEN conjunct2, THEN conjunct1, THEN spec, THEN mp, OF sc'] .
  show ?thesis
    apply (intro conjI)
    apply (rule s)
    apply (rule h)
    apply (rule m)
    apply (rule i)
    apply (rule sc)
    apply (rule t)
    done
qed

subsection \<open>The blocks of a version\<close>

text \<open>
  C7, as the claim states it, fails for a url that is present and empty: the condition
  \<^verbatim>\<open>if (version.header.url)\<close> is falsy for the empty string, and the leading block has the
  plain text. The header line \<^verbatim>\<open># [1.0]() (2024-01-05)\<close> gives such a record.
\<close>

theorem empty_url_plain_text:
  "parseMarkdown ''# [1.0]() (2024-01-05)''
     = Inr [\<lparr>header = \<lparr>version = ''1.0'', date = ''2024-01-05'', url = Some []\<rparr>, sections = []\<rparr>]
   \<and> versionToBlocks
       (Some \<lparr>header = \<lparr>version = ''1.0'', date = ''2024-01-05'', url = Some []\<rparr>, sections = []\<rparr>)
     = Inr [SectionBlock ''1.0 (2024-01-05)'']"
  by code_simp

text \<open>
  C7, amended: for every version record, the first rendered block is a section block whose
  text is \<^verbatim>\<open><url|version> (date)\<close> when the url of the record is present and not empty, and
  \<^verbatim>\<open>version (date)\<close> with no link markup when the url is absent or empty; it is followed by
  exactly one rich text block per section of the record, in the order of the sections.
\<close>

theorem versionToBlocks_blocks:
  "\<exists>lead. versionToBlocks (Some v) = Inr (SectionBlock lead # map section_block (sections v))
     \<and> (\<forall>u. url (header v) = Some u \<and> u \<noteq> [] \<longrightarrow>
           lead = ''<'' @ u @ ''|'' @ version (header v) @ ''> ('' @ date (header v) @ '')'')
     \<and> (url (header v) = None \<or> url (header v) = Some [] \<longrightarrow>
           lead = version (header v) @ '' ('' @ date (header v) @ '')'')
     \<and> (\<forall>s. \<exists>es. section_block s = RichTextBlock es)"
  by (cases "url (header v)") (auto simp: section_block_def)

theorem versionToBlocks_blocks_witness:
  "url (header \<lparr>header = \<lparr>version = ''1.2.0'', date = ''2024-01-05'', url = Some ''http://x/1.2.0''\<rparr>,
                 sections = [\<lparr>title = ''Features'', items = []\<rparr>, \<lparr>title = ''Bug Fixes'', items = []\<rparr>]\<rparr>)
     = Some ''http://x/1.2.0''
   \<and> ''http://x/1.2.0'' \<noteq> []
   \<and> versionToBlocks
       (Some \<lparr>header = \<lparr>version = ''1.2.0'', date = ''2024-01-05'', url = Some ''http://x/1.2.0''\<rparr>,
               sections = [\<lparr>title = ''Features'', items = []\<rparr>, \<lparr>title = ''Bug Fixes'', items = []\<rparr>]\<rparr>)
     = Inr [SectionBlock ''<http://x/1.2.0|1.2.0> (2024-01-05)'',
            section_block \<lparr>title = ''Features'', items = []\<rparr>,
            section_block \<lparr>title = ''Bug Fixes'', items = []\<rparr>]"
  using versionToBlocks_blocks
    [of "\<lparr>header = \<lparr>version = ''1.2.0'', date = ''2024-01-05'', url = Some ''http://x/1.2.0''\<rparr>,
          sections = [\<lparr>title = ''Features'', items = []\<rparr>, \<lparr>title = ''Bug Fixes'', items = []\<rparr>]\<rparr>"]
  by simp

subsection \<open>The runs of an item line\<close>

text \<open>
  C3 fails on the code for an item line in which the same link markup occurs twice.
  \<^verbatim>\<open>itemCpy.split(link)\<close> splits at every occurrence of the link, and the code keeps the
  first two pieces only: the text behind the second occurrence is in no run, and the text
  of the last run is \<^verbatim>\<open>undefined\<close>. For \<^verbatim>\<open>* see [#1](http://x/1) and [#1](http://x/1) again\<close> the
  normalized line with the display texts for the links is \<^verbatim>\<open>see #1 and #1 again\<close>; the texts of
  the runs make \<^verbatim>\<open>see #1 and #1\<close>. With a third occurrence the line throws.
\<close>

theorem item_runs_repeated_link:
  "normalize ''* see [#1](http://x/1) and [#1](http://x/1) again''
     = ''see [#1](http://x/1) and [#1](http://x/1) again''
   \<and> item_runs ''* see [#1](http://x/1) and [#1](http://x/1) again''
     = Inr [Text (Some ''see ''), Link ''[#1](http://x/1)'' ''http://x/1'' ''#1'',
            Text (Some '' and ''), Link ''[#1](http://x/1)'' ''http://x/1'' ''#1'', Text None]
   \<and> concat (map run_text
        [Text (Some ''see ''), Link ''[#1](http://x/1)'' ''http://x/1'' ''#1'',
         Text (Some '' and ''), Link ''[#1](http://x/1)'' ''http://x/1'' ''#1'', Text None])
     = ''see #1 and #1''
   \<and> item_runs ''* [a](u) [a](u) [a](u)'' = Inl UndefinedSplit"
  by code_simp

subsection \<open>The matcher\<close>

lemma lazy_star_hit: "k s = Some r \<Longrightarrow> lazy_star p k acc s = Some (acc, r)"
  by (cases s) simp_all

lemma lazy_star_until:
  assumes "\<forall>x\<in>set tok. p x \<and> (\<forall>s. k (x # s) = None)" and "k t = Some r"
  shows "lazy_star p k acc (tok @ t) = Some (acc @ tok, r)"
  using assms(1)
proof (induction tok arbitrary: acc)
  case Nil
  then show ?case using lazy_star_hit [of k t r p acc] assms(2) by simp
next
  case (Cons x tok)
  then have "lazy_star p k (acc @ [x]) (tok @ t) = Some ((acc @ [x]) @ tok, r)" by simp
  then show ?case using Cons.prems by simp
qed

lemma lazy_star_SomeD:
  assumes "lazy_star p k acc s = Some (g, r)"
  shows "\<exists>g' s'. g = acc @ g' \<and> s = g' @ s' \<and> k s' = Some r"
  using assms
proof (induction s arbitrary: acc)
  case Nil
  then show ?case by (auto split: option.splits)
next
  case (Cons x xs)
  show ?case
  proof (cases "k (x # xs)")
    case (Some r')
    then show ?thesis using Cons.prems by auto
  next
    case None
    then have "lazy_star p k (acc @ [x]) xs = Some (g, r)"
      using Cons.prems by (simp split: if_splits)
    from Cons.IH [OF this] obtain g' s' where "g = (acc @ [x]) @ g'" "xs = g' @ s'" "k s' = Some r"
      by blast
    then have "g = acc @ (x # g') \<and> x # xs = (x # g') @ s' \<and> k s' = Some r" by simp
    then show ?thesis by blast
  qed
qed

lemma greedy_star_ex:
  assumes "k t \<noteq> None" and "\<forall>x\<in>set ds. p x"
  shows "greedy_star p k (ds @ t) \<noteq> None"
  using assms(2)
proof (induction ds)
  case Nil
  then show ?case using assms(1) by (cases t) (auto split: option.splits)
next
  case (Cons d ds)
  then show ?case by (auto split: option.splits)
qed

text \<open>The steps of \<open>bt\<close>, one lemma per kind of atom.\<close>

lemma bt_One_Cons: "bt (One c # re) (x # xs) = (if cls_ok c x then bt re xs else None)"
  by simp

lemma bt_One_Nil: "bt (One c # re) [] = None"
  by simp

lemma bt_One_SomeD:
  assumes "bt (One c # re) s = Some r"
  shows "\<exists>x xs. s = x # xs \<and> cls_ok c x \<and> bt re xs = Some r"
  using assms by (cases s) (auto split: if_splits)

lemma bt_Plus:
  assumes "ds \<noteq> []" and "\<forall>x\<in>set ds. cls_ok c x" and "bt re t \<noteq> None"
  shows "bt (Plus c # re) (ds @ t) \<noteq> None"
proof -
  from assms(1) obtain d ds' where ds: "ds = d # ds'" by (cases ds) auto
  then have d: "cls_ok c d" and ds': "\<forall>x\<in>set ds'. cls_ok c x" using assms(2) by auto
  have "greedy_star (cls_ok c) (bt re) (ds' @ t) \<noteq> None"
    using greedy_star_ex [of "bt re" t ds' "cls_ok c"] assms(3) ds' by blast
  then show ?thesis using ds d by simp
qed

lemma bt_CapLazy_until:
  assumes "\<forall>x\<in>set tok. cls_ok c x \<and> (\<forall>s. bt re (x # s) = None)" and "bt re t = Some (caps, rest)"
  shows "bt (CapLazy c # re) (tok @ t) = Some (tok # caps, rest)"
  using lazy_star_until [of tok "cls_ok c" "bt re" t "(caps, rest)" "[]"] assms by simp

lemma bt_CapLazy_SomeD:
  assumes "bt (CapLazy c # re) s = Some (caps, rest)"
  shows "\<exists>g s' caps'. s = g @ s' \<and> bt re s' = Some (caps', rest)"
proof -
  from assms obtain g r where l: "lazy_star (cls_ok c) (bt re) [] s = Some (g, r)"
    and r: "snd r = rest"
    by (auto split: option.splits)
  from lazy_star_SomeD [OF l] obtain g' s' where "s = g' @ s'" "bt re s' = Some r" by blast
  then have "s = g' @ s' \<and> bt re s' = Some (fst r, rest)" using r by auto
  then show ?thesis by blast
qed

lemma bt_ones:
  "bt (map One cs) s = (if matches_classes cs s then Some ([], drop (length cs) s) else None)"
  by (induction cs s rule: matches_classes.induct) simp_all

lemma matches_classes_length: "matches_classes cs s \<Longrightarrow> length cs \<le> length s"
  by (induction cs s rule: matches_classes.induct) simp_all

subsection \<open>The date\<close>

lemma re_date_ones: "re_date = map One date_classes"
  by (simp add: re_date_def date_classes_def)

lemma length_date_classes: "length date_classes = 10"
  by (simp add: date_classes_def)

lemma bt_re_date: "bt re_date s = (if date_prefix s then Some ([], drop 10 s) else None)"
  by (simp only: re_date_ones bt_ones date_prefix_def length_date_classes)

lemma date_prefix_length: "date_prefix s \<Longrightarrow> 10 \<le> length s"
  using matches_classes_length [of date_classes s] by (simp add: date_prefix_def length_date_classes)

lemma js_match_re_date:
  "js_match re_date s = (case first_date s of None \<Rightarrow> None | Some d \<Rightarrow> Some [d])"
proof (induction s)
  case Nil
  have "\<not> date_prefix []" using date_prefix_length [of "[]"] by auto
  then show ?case by (simp add: bt_re_date)
next
  case (Cons x xs)
  show ?case
  proof (cases "date_prefix (x # xs)")
    case True
    have "length (x # xs) - length (drop 10 (x # xs)) = 10"
      using date_prefix_length [OF True] by (simp only: length_drop)
    then show ?thesis using True by (simp add: bt_re_date del: drop_Cons_numeral length_drop)
  next
    case False
    then show ?thesis using Cons by (simp add: bt_re_date)
  qed
qed

lemma first_date_None: "first_date s = None \<longleftrightarrow> \<not> has_date s"
  by (induction s) simp_all

lemma match_at_re_date:
  "match_at re_date s 0 = (case first_date s of None \<Rightarrow> Inl NullMatch | Some d \<Rightarrow> Inr d)"
  by (simp add: match_at_def js_match_re_date split: option.splits)

subsection \<open>Where a match is\<close>

text \<open>A match is a match of the pattern at some suffix of the string.\<close>

lemma js_match_SomeD:
  assumes "js_match re s = Some arr"
  shows "\<exists>pre t caps rest. s = pre @ t \<and> bt re t = Some (caps, rest)"
  using assms
proof (induction s)
  case Nil
  then show ?case by (auto split: option.splits)
next
  case (Cons x xs)
  show ?case
  proof (cases "bt re (x # xs)")
    case None
    then have "js_match re xs = Some arr" using Cons.prems by simp
    from Cons.IH [OF this] obtain pre t caps rest where "xs = pre @ t" "bt re t = Some (caps, rest)"
      by blast
    then have "x # xs = (x # pre) @ t \<and> bt re t = Some (caps, rest)" by simp
    then show ?thesis by blast
  next
    case (Some r)
    then have "x # xs = [] @ (x # xs) \<and> bt re (x # xs) = Some (fst r, snd r)" by simp
    then show ?thesis by blast
  qed
qed

lemma js_match_here:
  assumes "bt re s = Some (caps, rest)"
  shows "js_match re s = Some (take (length s - length rest) s # caps)"
  using assms by (cases s) simp_all

lemma bt_re_paren_SomeD:
  assumes "bt re_paren t = Some (caps, rest)"
  shows "\<exists>g. t = ''('' @ g @ '')'' @ rest"
proof -
  from assms have "bt (One (Lit CHR ''('') # [CapLazy Dot, One (Lit CHR '')'')]) t = Some (caps, rest)"
    by (simp only: re_paren_def)
  from bt_One_SomeD [OF this] obtain t' where t: "t = CHR ''('' # t'"
    and 1: "bt (CapLazy Dot # [One (Lit CHR '')'')]) t' = Some (caps, rest)"
    by auto
  from bt_CapLazy_SomeD [OF 1] obtain g s' caps' where t': "t' = g @ s'"
    and 2: "bt (One (Lit CHR '')'') # []) s' = Some (caps', rest)"
    by blast
  from bt_One_SomeD [OF 2] have "s' = CHR '')'' # rest" by auto
  then show ?thesis using t t' by simp
qed

lemma has_paren_iff: "has_paren s \<longleftrightarrow> (\<exists>a b c. s = a @ ''('' @ b @ '')'' @ c)"
proof
  let ?d = "dropWhile (\<lambda>c. c \<noteq> CHR ''('') s"
  assume "has_paren s"
  then have in_d: "CHR '')'' \<in> set ?d"
    by (simp add: has_paren_def)
  then have ne: "?d \<noteq> []" by (metis empty_iff list.set(1))
  from hd_dropWhile [OF ne] have h: "hd ?d = CHR ''(''" by simp
  from ne obtain x t where xt: "?d = x # t" by (meson neq_Nil_conv)
  have x: "x = CHR ''(''" using h by (simp only: xt list.sel)
  have "CHR '')'' \<in> set (x # t)" using in_d by (simp only: xt)
  then have "CHR '')'' \<in> set t" using x by simp
  then obtain b c where "t = b @ CHR '')'' # c" by (meson split_list)
  then have "?d = ''('' @ b @ '')'' @ c" using xt x by simp
  then have "s = takeWhile (\<lambda>c. c \<noteq> CHR ''('') s @ ''('' @ b @ '')'' @ c"
    using takeWhile_dropWhile_id [of "\<lambda>c. c \<noteq> CHR ''(''" s] by (metis (full_types))
  then show "\<exists>a b c. s = a @ ''('' @ b @ '')'' @ c" by blast
next
  assume "\<exists>a b c. s = a @ ''('' @ b @ '')'' @ c"
  then obtain a b c where s: "s = a @ ''('' @ b @ '')'' @ c" by blast
  show "has_paren s"
    unfolding has_paren_def s by (simp add: dropWhile_append)
qed

lemma js_match_re_paren_None:
  assumes "\<not> has_paren s"
  shows "js_match re_paren s = None"
proof (rule ccontr)
  assume "js_match re_paren s \<noteq> None"
  then obtain arr where "js_match re_paren s = Some arr" by blast
  from js_match_SomeD [OF this] obtain pre t caps rest where "s = pre @ t"
    "bt re_paren t = Some (caps, rest)" by blast
  with bt_re_paren_SomeD obtain g where "s = pre @ ''('' @ g @ '')'' @ rest" by blast
  then have "has_paren s" unfolding has_paren_iff by blast
  then show False using assms by simp
qed

lemma bt_re_bare_version_SomeD:
  assumes "bt re_bare_version t = Some (caps, rest)"
  shows "\<exists>g. t = ''# '' @ g @ '' '' @ rest"
proof -
  from assms have "bt (One (Lit CHR ''#'') # [One (Lit CHR '' ''), CapLazy Dot, One (Lit CHR '' '')]) t
      = Some (caps, rest)"
    by (simp only: re_bare_version_def)
  from bt_One_SomeD [OF this] obtain t1 where t: "t = CHR ''#'' # t1"
    and 0: "bt (One (Lit CHR '' '') # [CapLazy Dot, One (Lit CHR '' '')]) t1 = Some (caps, rest)"
    by auto
  from bt_One_SomeD [OF 0] obtain t' where t1: "t1 = CHR '' '' # t'"
    and 1: "bt (CapLazy Dot # [One (Lit CHR '' '')]) t' = Some (caps, rest)"
    by auto
  from bt_CapLazy_SomeD [OF 1] obtain g s' caps' where t': "t' = g @ s'"
    and 2: "bt (One (Lit CHR '' '') # []) s' = Some (caps', rest)"
    by blast
  from bt_One_SomeD [OF 2] have "s' = CHR '' '' # rest" by auto
  then show ?thesis using t t1 t' by simp
qed

lemma space_behind_prefix: "CHR '' '' \<in> set (drop 2 (pre @ ''# '' @ g @ '' '' @ rest))"
proof (cases pre)
  case Nil
  then show ?thesis by simp
next
  case (Cons a p)
  then show ?thesis by (cases p) simp_all
qed

lemma js_match_re_bare_version_None:
  assumes "CHR '' '' \<notin> set (drop 2 s)"
  shows "js_match re_bare_version s = None"
proof (rule ccontr)
  assume "js_match re_bare_version s \<noteq> None"
  then obtain arr where "js_match re_bare_version s = Some arr" by blast
  from js_match_SomeD [OF this] obtain pre t caps rest where "s = pre @ t"
    "bt re_bare_version t = Some (caps, rest)" by blast
  with bt_re_bare_version_SomeD obtain g where "s = pre @ ''# '' @ g @ '' '' @ rest" by blast
  then show False using assms space_behind_prefix [of pre g rest] by simp
qed

lemma bt_re_bare_version_token:
  assumes "\<forall>c\<in>set tok. c \<noteq> CHR '' '' \<and> c \<noteq> CHR 0x0A \<and> c \<noteq> CHR 0x0D"
  shows "bt re_bare_version (''# '' @ tok @ '' '' @ tail) = Some ([tok], tail)"
proof -
  have a: "\<forall>x\<in>set tok. cls_ok Dot x \<and> (\<forall>s. bt [One (Lit CHR '' '')] (x # s) = None)"
    using assms by simp
  have b: "bt [One (Lit CHR '' '')] ('' '' @ tail) = Some ([], tail)" by simp
  have "bt (CapLazy Dot # [One (Lit CHR '' '')]) (tok @ '' '' @ tail) = Some ([tok], tail)"
    using bt_CapLazy_until [OF a b] .
  then show ?thesis
    by (simp add: re_bare_version_def bt_One_Cons del: bt.simps(2))
qed

lemma match_at_re_bare_version_token:
  assumes "\<forall>c\<in>set tok. c \<noteq> CHR '' '' \<and> c \<noteq> CHR 0x0A \<and> c \<noteq> CHR 0x0D"
  shows "match_at re_bare_version (''# '' @ tok @ '' '' @ tail) 1 = Inr tok"
  using js_match_here [OF bt_re_bare_version_token [OF assms, of tail]]
  by (simp add: match_at_def)

lemma bare_header_shape:
  assumes "ds1 \<noteq> []" and "ds2 \<noteq> []" and "ds3 \<noteq> []"
    and "\<forall>d\<in>set (ds1 @ ds2 @ ds3). d \<in> set ''0123456789''"
    and "c1 \<noteq> CHR 0x0A \<and> c1 \<noteq> CHR 0x0D" and "c2 \<noteq> CHR 0x0A \<and> c2 \<noteq> CHR 0x0D"
  shows "bare_header (''# '' @ ds1 @ [c1] @ ds2 @ [c2] @ ds3 @ rest)"
proof -
  have dig: "\<forall>x\<in>set ds1. cls_ok Digit x" "\<forall>x\<in>set ds2. cls_ok Digit x" "\<forall>x\<in>set ds3. cls_ok Digit x"
    using assms(4) by auto
  have e: "bt [] rest \<noteq> None" by simp
  have 3: "bt (Plus Digit # []) (ds3 @ rest) \<noteq> None"
    using bt_Plus [OF assms(3) dig(3) e] .
  have 2: "bt (One Dot # [Plus Digit]) ([c2] @ ds3 @ rest) \<noteq> None"
    using 3 assms(6) by (simp add: bt_One_Cons del: bt.simps(2))
  have 1: "bt (Plus Digit # [One Dot, Plus Digit]) (ds2 @ [c2] @ ds3 @ rest) \<noteq> None"
    using bt_Plus [OF assms(2) dig(2) 2] .
  have 0: "bt (One Dot # [Plus Digit, One Dot, Plus Digit]) ([c1] @ ds2 @ [c2] @ ds3 @ rest) \<noteq> None"
    using 1 assms(5) by (simp add: bt_One_Cons del: bt.simps(2))
  have "bt (Plus Digit # [One Dot, Plus Digit, One Dot, Plus Digit]) (ds1 @ [c1] @ ds2 @ [c2] @ ds3 @ rest) \<noteq> None"
    using bt_Plus [OF assms(1) dig(1) 0] .
  then show ?thesis
    by (simp add: bare_header_def re_bare_header_def bt_One_Cons del: bt.simps(2))
qed

subsection \<open>The indices of a match array\<close>

text \<open>
  A match array has the matched text and one entry per capturing group, so the indices 0
  and 1 that the code reads are in range for the expressions it reads them from.
\<close>

lemma greedy_star_SomeD: "greedy_star p k s = Some r \<Longrightarrow> \<exists>s'. k s' = Some r"
  by (induction s) (auto split: if_splits option.splits)

lemma bt_captures: "bt re s = Some (caps, rest) \<Longrightarrow> length caps = captures re"
proof (induction re arbitrary: s caps rest)
  case Nil
  then show ?case by simp
next
  case (Cons a re)
  show ?case
  proof (cases a)
    case (One c)
    with Cons.prems obtain xs where "bt re xs = Some (caps, rest)"
      by (cases s) (auto split: if_splits)
    then show ?thesis using Cons.IH One by simp
  next
    case (Plus c)
    with Cons.prems obtain xs where "greedy_star (cls_ok c) (bt re) xs = Some (caps, rest)"
      by (cases s) (auto split: if_splits)
    from greedy_star_SomeD [OF this] obtain s' where "bt re s' = Some (caps, rest)" by blast
    then show ?thesis using Cons.IH Plus by simp
  next
    case (CapLazy c)
    with Cons.prems obtain g caps' where l: "lazy_star (cls_ok c) (bt re) [] s = Some (g, caps', rest)"
      and c: "caps = g # caps'"
      by (auto split: option.splits)
    from lazy_star_SomeD [OF l] obtain s' where "bt re s' = Some (caps', rest)" by blast
    then show ?thesis using Cons.IH CapLazy c by simp
  qed
qed

lemma js_match_length: "js_match re s = Some arr \<Longrightarrow> length arr = Suc (captures re)"
proof (induction s)
  case Nil
  then show ?case using bt_captures [of re "[]"] by (auto split: option.splits)
next
  case (Cons x xs)
  then show ?case using bt_captures [of re "x # xs"] by (auto split: option.splits)
qed

lemma captures_of_the_code:
  "captures re_bracket_version = 1 \<and> captures re_date = 0 \<and> captures re_paren = 1
   \<and> captures re_bare_version = 1 \<and> captures re_bracket = 1"
  by (simp add: re_bracket_version_def re_date_def re_paren_def re_bare_version_def re_bracket_def)

subsection \<open>Dates as substrings\<close>

lemma matches_classes_append: "matches_classes cs d \<Longrightarrow> matches_classes cs (d @ post)"
  by (induction cs d rule: matches_classes.induct) simp_all

lemma matches_classes_take: "matches_classes cs s \<Longrightarrow> matches_classes cs (take (length cs) s)"
  by (induction cs s rule: matches_classes.induct) simp_all

lemma date_prefix_is_date: "date_prefix s \<Longrightarrow> is_date (take 10 s)"
  using matches_classes_take [of date_classes s] date_prefix_length [of s]
  by (simp add: is_date_def date_prefix_def length_date_classes)

lemma is_date_prefix: "is_date d \<Longrightarrow> date_prefix (d @ post)"
  using matches_classes_append [of date_classes d post] by (simp add: is_date_def date_prefix_def)

lemma has_date_iff: "has_date s \<longleftrightarrow> (\<exists>pre d post. s = pre @ d @ post \<and> is_date d)"
proof
  show "has_date s \<Longrightarrow> \<exists>pre d post. s = pre @ d @ post \<and> is_date d"
  proof (induction s)
    case Nil
    then show ?case by simp
  next
    case (Cons x xs)
    show ?case
    proof (cases "date_prefix (x # xs)")
      case True
      then have "x # xs = [] @ take 10 (x # xs) @ drop 10 (x # xs) \<and> is_date (take 10 (x # xs))"
        using date_prefix_is_date [OF True] by (simp del: take_Cons_numeral drop_Cons_numeral)
      then show ?thesis by blast
    next
      case False
      then have "has_date xs" using Cons.prems by simp
      from Cons.IH [OF this] obtain pre d post where "xs = pre @ d @ post" "is_date d" by blast
      then have "x # xs = (x # pre) @ d @ post \<and> is_date d" by simp
      then show ?thesis by blast
    qed
  qed
next
  assume "\<exists>pre d post. s = pre @ d @ post \<and> is_date d"
  then obtain pre d post where s: "s = pre @ d @ post" and d: "is_date d" by blast
  have "has_date (pre @ d @ post)"
  proof (induction pre)
    case Nil
    have "d @ post \<noteq> []" using d by (auto simp: is_date_def)
    then obtain y ys where "d @ post = y # ys" by (meson neq_Nil_conv)
    then show ?case using is_date_prefix [OF d, of post] by simp
  next
    case (Cons a pre)
    then show ?case by simp
  qed
  then show "has_date s" using s by simp
qed

text \<open>\<open>first_date\<close> is the date that begins first.\<close>

lemma first_date_first:
  assumes "first_date s = Some d"
  shows "\<exists>pre post. s = pre @ d @ post \<and> is_date d
           \<and> (\<forall>pre' d' post'. s = pre' @ d' @ post' \<and> is_date d' \<longrightarrow> length pre \<le> length pre')"
  using assms
proof (induction s)
  case Nil
  then show ?case by simp
next
  case (Cons x xs)
  show ?case
  proof (cases "date_prefix (x # xs)")
    case True
    then have d: "d = take 10 (x # xs)" using Cons.prems by simp
    have "x # xs = [] @ d @ drop 10 (x # xs) \<and> is_date d"
      using date_prefix_is_date [OF True] d by (simp del: take_Cons_numeral drop_Cons_numeral)
    then show ?thesis by (metis le0 list.size(3))
  next
    case False
    then have "first_date xs = Some d" using Cons.prems by simp
    from Cons.IH [OF this] obtain pre post where xs: "xs = pre @ d @ post" and d: "is_date d"
      and m: "\<forall>pre' d' post'. xs = pre' @ d' @ post' \<and> is_date d' \<longrightarrow> length pre \<le> length pre'"
      by blast
    have "length (x # pre) \<le> length pre'" if p: "x # xs = pre' @ d' @ post'" and d': "is_date d'"
      for pre' d' post'
    proof (cases pre')
      case Nil
      then have "date_prefix (x # xs)" using is_date_prefix [OF d', of post'] p by simp
      then show ?thesis using False by simp
    next
      case (Cons a p'')
      then have "xs = p'' @ d' @ post'" using p by simp
      then show ?thesis using m d' Cons by auto
    qed
    then have "x # xs = (x # pre) @ d @ post \<and> is_date d
        \<and> (\<forall>pre' d' post'. x # xs = pre' @ d' @ post' \<and> is_date d' \<longrightarrow> length (x # pre) \<le> length pre')"
      using xs d by simp
    then show ?thesis by blast
  qed
qed

subsection \<open>Header lines that throw\<close>

lemma on_bracket_header_no_date:
  assumes "bracket_header line" and "\<not> has_date line"
  shows "on_bracket_header line = Inl NullMatch"
proof -
  have d: "match_at re_date line 0 = Inl NullMatch"
    using assms(2) first_date_None [of line] by (simp add: match_at_re_date)
  show ?thesis
  proof (cases "match_at re_bracket_version line 1")
    case (Inl e)
    then show ?thesis using assms(1) match_at_Inl [OF Inl] by (simp add: on_bracket_header_def)
  next
    case (Inr v)
    then show ?thesis using assms(1) d by (simp add: on_bracket_header_def)
  qed
qed

lemma on_bracket_header_no_paren:
  assumes "bracket_header line" and "\<not> has_paren line"
  shows "on_bracket_header line = Inl NullMatch"
proof -
  have p: "match_at re_paren line 1 = Inl NullMatch"
    using js_match_re_paren_None [OF assms(2)] by (simp add: match_at_def)
  show ?thesis
  proof (cases "match_at re_bracket_version line 1")
    case (Inl e)
    then show ?thesis using assms(1) match_at_Inl [OF Inl] by (simp add: on_bracket_header_def)
  next
    case v: (Inr v)
    show ?thesis
    proof (cases "match_at re_date line 0")
      case (Inl e)
      then show ?thesis using assms(1) v match_at_Inl [OF Inl] by (simp add: on_bracket_header_def)
    next
      case (Inr d)
      then show ?thesis using assms(1) v p by (simp add: on_bracket_header_def)
    qed
  qed
qed

lemma on_bare_header_no_space:
  assumes "bare_header line" and "CHR '' '' \<notin> set (drop 2 line)"
  shows "on_bare_header line = Inl NullMatch"
  using assms js_match_re_bare_version_None [OF assms(2)]
  by (simp add: on_bare_header_def match_at_def)

lemma line_elements_throws:
  assumes "(bracket_header line \<and> (\<not> has_date line \<or> \<not> has_paren line))
           \<or> (bare_header line \<and> CHR '' '' \<notin> set (drop 2 line))"
  shows "line_elements line = Inl NullMatch"
proof -
  consider "bracket_header line" "\<not> has_date line" | "bracket_header line" "\<not> has_paren line"
    | "bare_header line" "CHR '' '' \<notin> set (drop 2 line)"
    using assms by blast
  then show ?thesis
  proof cases
    case 1
    then show ?thesis using on_bracket_header_no_date by (simp add: line_elements_def)
  next
    case 2
    then show ?thesis using on_bracket_header_no_paren by (simp add: line_elements_def)
  next
    case 3
    then have "\<not> bracket_header line" using bracket_not_bare by blast
    then show ?thesis
      using on_bare_header_no_space [OF 3] by (simp add: line_elements_def on_bracket_header_def)
  qed
qed

lemma scan_lines_throws:
  assumes "line \<in> set lines" and "line_elements line = Inl e"
  shows "\<exists>e'. scan_lines lines = Inl e'"
  using assms(1)
proof (induction lines)
  case Nil
  then show ?case by simp
next
  case (Cons l lines)
  show ?case
  proof (cases "line_elements l")
    case (Inl e1)
    then show ?thesis by simp
  next
    case (Inr es)
    then have "line \<in> set lines" using Cons.prems assms(2) by auto
    from Cons.IH [OF this] obtain e' where "scan_lines lines = Inl e'" by blast
    then show ?thesis using Inr by simp
  qed
qed

lemma scan_lines_first_throw:
  assumes "scan_lines pre = Inr es" and "line_elements line = Inl e"
  shows "scan_lines (pre @ [line] @ post) = Inl e"
  using assms by (simp add: scan_lines_append)

subsection \<open>A bare numeric header line\<close>

lemma line_elements_bare_header:
  assumes "bare_header line"
    and "line = ''# '' @ tok @ '' '' @ tail"
    and "\<forall>c\<in>set tok. c \<noteq> CHR '' '' \<and> c \<noteq> CHR 0x0A \<and> c \<noteq> CHR 0x0D"
    and "first_date line = Some d"
  shows "line_elements line = Inr [HeaderEl line tok d None]"
proof -
  have no: "\<not> bracket_header line" "\<not> startsWith line ''### ''" "\<not> startsWith line ''* ''"
    using assms(1) bracket_not_bare bare_not_section bare_not_item by blast+
  have v: "match_at re_bare_version line 1 = Inr tok"
    using match_at_re_bare_version_token [OF assms(3), of tail] assms(2) by simp
  have dt: "match_at re_date line 0 = Inr d"
    using assms(4) by (simp add: match_at_re_date)
  show ?thesis
    using no assms(1) v dt
    by (simp add: line_elements_def on_bracket_header_def on_bare_header_def on_section_eq
        on_item_def)
qed

lemma on_bare_header_no_date:
  assumes "bare_header line" and "\<not> has_date line"
  shows "on_bare_header line = Inl NullMatch"
proof -
  have d: "match_at re_date line 0 = Inl NullMatch"
    using assms(2) first_date_None [of line] by (simp add: match_at_re_date)
  show ?thesis
  proof (cases "match_at re_bare_version line 1")
    case (Inl e)
    then show ?thesis using assms(1) match_at_Inl [OF Inl] by (simp add: on_bare_header_def)
  next
    case (Inr v)
    then show ?thesis using assms(1) d by (simp add: on_bare_header_def)
  qed
qed

lemma line_elements_bare_throws:
  assumes "bare_header line" and "\<not> has_date line \<or> CHR '' '' \<notin> set (drop 2 line)"
  shows "line_elements line = Inl NullMatch \<and> parse_lines [line] = Inl NullMatch"
proof -
  have nb: "\<not> bracket_header line" using assms(1) bracket_not_bare by blast
  have "on_bare_header line = Inl NullMatch"
    using assms on_bare_header_no_date on_bare_header_no_space by blast
  then have "line_elements line = Inl NullMatch"
    using nb by (simp add: line_elements_def on_bracket_header_def)
  then show ?thesis by (simp add: parse_lines_def)
qed

lemma parse_lines_single_header:
  assumes "line_elements line = Inr [HeaderEl line v d u]"
  shows "parse_lines [line] = Inr [\<lparr>header = \<lparr>version = v, date = d, url = u\<rparr>, sections = []\<rparr>]"
  using assms by (simp add: parse_lines_def initial_state_def Let_def)

subsection \<open>The wildcards of the bare numeric header\<close>

text \<open>
  C8, as the claim states it, fails: the line \<^verbatim>\<open># 1.2.3\<close> begins with \<^verbatim>\<open># \<close>, digits, a
  character, digits, a character and digits, and is classified as a bare numeric header,
  but no record is made from it: it has no space behind the version and no date, and
  \<^verbatim>\<open>parseMarkdown\<close> throws.
\<close>

theorem bare_header_without_space_throws:
  "bare_header ''# 1.2.3'' \<and> parseMarkdown ''# 1.2.3'' = Inl NullMatch"
  by code_simp

text \<open>
  C8, amended: every line that begins with \<^verbatim>\<open># \<close> followed at once by digits, any single
  character that is no line terminator, digits, any such character and digits is classified
  as a bare numeric header: the two characters in the middle are wildcards, not dots. When
  moreover the line is \<^verbatim>\<open># \<close>, a token with no space and no line terminator in it, a space
  and a tail, and the line has a date, then the line makes one header element, and from it
  one version record, whose version is that token, whose date is the first date of the line
  and which has no url. When the line has no date, or has no space anywhere behind its
  leading \<^verbatim>\<open># \<close>, the line makes no record: the body of the first loop throws the
  \<^verbatim>\<open>TypeError\<close> of an index into a \<^verbatim>\<open>null\<close> match. The line \<^verbatim>\<open># 1a2b3 (2024-01-05)\<close> is the
  witness of the first two parts, the line \<^verbatim>\<open># 1.2.3\<close> of the third.
\<close>

theorem bare_header_wildcards:
  assumes "line = ''# '' @ ds1 @ [c1] @ ds2 @ [c2] @ ds3 @ rest"
    and "ds1 \<noteq> []" and "ds2 \<noteq> []" and "ds3 \<noteq> []"
    and "\<forall>d\<in>set (ds1 @ ds2 @ ds3). d \<in> set ''0123456789''"
    and "c1 \<noteq> CHR 0x0A \<and> c1 \<noteq> CHR 0x0D" and "c2 \<noteq> CHR 0x0A \<and> c2 \<noteq> CHR 0x0D"
  shows "bare_header line \<and> header_line line
     \<and> (\<forall>tok tail d.
           line = ''# '' @ tok @ '' '' @ tail
           \<and> (\<forall>c\<in>set tok. c \<noteq> CHR '' '' \<and> c \<noteq> CHR 0x0A \<and> c \<noteq> CHR 0x0D)
           \<and> first_date line = Some d \<longrightarrow>
           line_elements line = Inr [HeaderEl line tok d None]
           \<and> parse_lines [line]
               = Inr [\<lparr>header = \<lparr>version = tok, date = d, url = None\<rparr>, sections = []\<rparr>])
     \<and> (\<not> has_date line \<or> CHR '' '' \<notin> set (drop 2 line) \<longrightarrow>
           line_elements line = Inl NullMatch \<and> parse_lines [line] = Inl NullMatch)"
proof -
  have b: "bare_header line"
    unfolding assms(1) using bare_header_shape [OF assms(2-7)] .
  have h: "header_line line"
    unfolding header_line_def using b by (rule disjI2)
  have r: "\<forall>tok tail d.
           line = ''# '' @ tok @ '' '' @ tail
           \<and> (\<forall>c\<in>set tok. c \<noteq> CHR '' '' \<and> c \<noteq> CHR 0x0A \<and> c \<noteq> CHR 0x0D)
           \<and> first_date line = Some d \<longrightarrow>
           line_elements line = Inr [HeaderEl line tok d None]
           \<and> parse_lines [line]
               = Inr [\<lparr>header = \<lparr>version = tok, date = d, url = None\<rparr>, sections = []\<rparr>]"
  proof (intro allI impI)
    fix tok tail d
    assume a: "line = ''# '' @ tok @ '' '' @ tail
           \<and> (\<forall>c\<in>set tok. c \<noteq> CHR '' '' \<and> c \<noteq> CHR 0x0A \<and> c \<noteq> CHR 0x0D)
           \<and> first_date line = Some d"
    from a have a1: "line = ''# '' @ tok @ '' '' @ tail" by (rule conjunct1)
    from a have a2: "\<forall>c\<in>set tok. c \<noteq> CHR '' '' \<and> c \<noteq> CHR 0x0A \<and> c \<noteq> CHR 0x0D"
      by (rule conjunct2 [THEN conjunct1])
    from a have a3: "first_date line = Some d" by (rule conjunct2 [THEN conjunct2])
    have le: "line_elements line = Inr [HeaderEl line tok d None]"
      using b a1 a2 a3 by (rule line_elements_bare_header)
    from le parse_lines_single_header [OF le]
    show "line_elements line = Inr [HeaderEl line tok d None]
           \<and> parse_lines [line]
               = Inr [\<lparr>header = \<lparr>version = tok, date = d, url = None\<rparr>, sections = []\<rparr>]"
      by (rule conjI)
  qed
  have t: "\<not> has_date line \<or> CHR '' '' \<notin> set (drop 2 line) \<longrightarrow>
           line_elements line = Inl NullMatch \<and> parse_lines [line] = Inl NullMatch"
  proof
    assume "\<not> has_date line \<or> CHR '' '' \<notin> set (drop 2 line)"
    with b show "line_elements line = Inl NullMatch \<and> parse_lines [line] = Inl NullMatch"
      by (rule line_elements_bare_throws)
  qed
  from b h r t show ?thesis by (intro conjI)
qed

theorem bare_header_wildcards_witness:
  "''# 1a2b3 (2024-01-05)'' = ''# '' @ ''1'' @ [CHR ''a''] @ ''2'' @ [CHR ''b''] @ ''3'' @ '' (2024-01-05)''
   \<and> ''# 1a2b3 (2024-01-05)'' = ''# '' @ ''1a2b3'' @ '' '' @ ''(2024-01-05)''
   \<and> first_date ''# 1a2b3 (2024-01-05)'' = Some ''2024-01-05''
   \<and> bare_header ''# 1a2b3 (2024-01-05)''
   \<and> line_elements ''# 1a2b3 (2024-01-05)''
       = Inr [HeaderEl ''# 1a2b3 (2024-01-05)'' ''1a2b3'' ''2024-01-05'' None]
   \<and> parse_lines [''# 1a2b3 (2024-01-05)'']
       = Inr [\<lparr>header = \<lparr>version = ''1a2b3'', date = ''2024-01-05'', url = None\<rparr>, sections = []\<rparr>]
   \<and> ''# 1.2.3'' = ''# '' @ ''1'' @ [CHR ''.''] @ ''2'' @ [CHR ''.''] @ ''3'' @ []
   \<and> \<not> has_date ''# 1.2.3''
   \<and> line_elements ''# 1.2.3'' = Inl NullMatch
   \<and> parse_lines [''# 1.2.3''] = Inl NullMatch"
proof -
  have s: "''# 1a2b3 (2024-01-05)'' = ''# '' @ ''1'' @ [CHR ''a''] @ ''2'' @ [CHR ''b''] @ ''3'' @ '' (2024-01-05)''"
    by simp
  have t: "''# 1a2b3 (2024-01-05)'' = ''# '' @ ''1a2b3'' @ '' '' @ ''(2024-01-05)''"
    by simp
  have f: "first_date ''# 1a2b3 (2024-01-05)'' = Some ''2024-01-05''"
    by code_simp
  have c: "\<forall>c\<in>set ''1a2b3''. c \<noteq> CHR '' '' \<and> c \<noteq> CHR 0x0A \<and> c \<noteq> CHR 0x0D"
    by simp
  have w: "bare_header ''# 1a2b3 (2024-01-05)'' \<and> header_line ''# 1a2b3 (2024-01-05)''
     \<and> (\<forall>tok tail d.
           ''# 1a2b3 (2024-01-05)'' = ''# '' @ tok @ '' '' @ tail
           \<and> (\<forall>c\<in>set tok. c \<noteq> CHR '' '' \<and> c \<noteq> CHR 0x0A \<and> c \<noteq> CHR 0x0D)
           \<and> first_date ''# 1a2b3 (2024-01-05)'' = Some d \<longrightarrow>
           line_elements ''# 1a2b3 (2024-01-05)'' = Inr [HeaderEl ''# 1a2b3 (2024-01-05)'' tok d None]
           \<and> parse_lines [''# 1a2b3 (2024-01-05)'']
               = Inr [\<lparr>header = \<lparr>version = tok, date = d, url = None\<rparr>, sections = []\<rparr>])
     \<and> (\<not> has_date ''# 1a2b3 (2024-01-05)'' \<or> CHR '' '' \<notin> set (drop 2 ''# 1a2b3 (2024-01-05)'') \<longrightarrow>
           line_elements ''# 1a2b3 (2024-01-05)'' = Inl NullMatch
           \<and> parse_lines [''# 1a2b3 (2024-01-05)''] = Inl NullMatch)"
    by (rule bare_header_wildcards [OF s]) simp_all
  from w have w1: "bare_header ''# 1a2b3 (2024-01-05)''" by (rule conjunct1)
  from w [THEN conjunct2, THEN conjunct2, THEN conjunct1, THEN spec, THEN spec, THEN spec, THEN mp,
      of "''1a2b3''" "''(2024-01-05)''" "''2024-01-05''"] t c f
  have w2: "line_elements ''# 1a2b3 (2024-01-05)''
       = Inr [HeaderEl ''# 1a2b3 (2024-01-05)'' ''1a2b3'' ''2024-01-05'' None]
   \<and> parse_lines [''# 1a2b3 (2024-01-05)'']
       = Inr [\<lparr>header = \<lparr>version = ''1a2b3'', date = ''2024-01-05'', url = None\<rparr>, sections = []\<rparr>]"
    by blast
  have s2: "''# 1.2.3'' = ''# '' @ ''1'' @ [CHR ''.''] @ ''2'' @ [CHR ''.''] @ ''3'' @ []"
    by simp
  have nd: "\<not> has_date ''# 1.2.3''" by code_simp
  have v: "bare_header ''# 1.2.3'' \<and> header_line ''# 1.2.3''
     \<and> (\<forall>tok tail d.
           ''# 1.2.3'' = ''# '' @ tok @ '' '' @ tail
           \<and> (\<forall>c\<in>set tok. c \<noteq> CHR '' '' \<and> c \<noteq> CHR 0x0A \<and> c \<noteq> CHR 0x0D)
           \<and> first_date ''# 1.2.3'' = Some d \<longrightarrow>
           line_elements ''# 1.2.3'' = Inr [HeaderEl ''# 1.2.3'' tok d None]
           \<and> parse_lines [''# 1.2.3'']
               = Inr [\<lparr>header = \<lparr>version = tok, date = d, url = None\<rparr>, sections = []\<rparr>])
     \<and> (\<not> has_date ''# 1.2.3'' \<or> CHR '' '' \<notin> set (drop 2 ''# 1.2.3'') \<longrightarrow>
           line_elements ''# 1.2.3'' = Inl NullMatch \<and> parse_lines [''# 1.2.3''] = Inl NullMatch)"
    by (rule bare_header_wildcards [OF s2]) simp_all
  have w3: "line_elements ''# 1.2.3'' = Inl NullMatch \<and> parse_lines [''# 1.2.3''] = Inl NullMatch"
    using v [THEN conjunct2, THEN conjunct2, THEN conjunct2, THEN mp, OF disjI1, OF nd] .
  show ?thesis
    apply (intro conjI)
    apply (rule s)
    apply (rule t)
    apply (rule f)
    apply (rule w1)
    apply (rule w2 [THEN conjunct1])
    apply (rule w2 [THEN conjunct2])
    apply (rule s2)
    apply (rule nd)
    apply (rule w3 [THEN conjunct1])
    apply (rule w3 [THEN conjunct2])
    done
qed

subsection \<open>The parser is not total\<close>

text \<open>
  C10: \<^verbatim>\<open>parseMarkdown\<close> is not total. A line that begins with \<^verbatim>\<open># [\<close> or \<^verbatim>\<open>## [\<close> and has no date
  or no \<^verbatim>\<open>(\<close> with a \<^verbatim>\<open>)\<close> behind it, and a bare numeric header line with no space behind its
  \<^verbatim>\<open># \<close>, make the body of the first loop throw the \<^verbatim>\<open>TypeError\<close> of an index into a \<^verbatim>\<open>null\<close>
  match. A document that has such a line makes \<^verbatim>\<open>parseMarkdown\<close> throw; when no line before
  it throws, the error is that \<^verbatim>\<open>TypeError\<close>.
\<close>

theorem header_line_throws:
  assumes "(bracket_header line \<and> (\<not> has_date line \<or> \<not> has_paren line))
           \<or> (bare_header line \<and> CHR '' '' \<notin> set (drop 2 line))"
  shows "line_elements line = Inl NullMatch
     \<and> (line \<in> set (js_split markdown [CHR 0x0A]) \<longrightarrow> (\<exists>e. parseMarkdown markdown = Inl e))
     \<and> (\<forall>pre post es. js_split markdown [CHR 0x0A] = pre @ [line] @ post \<and> scan_lines pre = Inr es
           \<longrightarrow> parseMarkdown markdown = Inl NullMatch)"
proof -
  have l: "line_elements line = Inl NullMatch"
    using line_elements_throws [OF assms] .
  have a: "\<exists>e. parseMarkdown markdown = Inl e" if "line \<in> set (js_split markdown [CHR 0x0A])"
    using scan_lines_throws [OF that l] by (auto simp: parseMarkdown_def parse_lines_def)
  have b: "parseMarkdown markdown = Inl NullMatch"
    if "js_split markdown [CHR 0x0A] = pre @ [line] @ post" and "scan_lines pre = Inr es"
    for pre post es
    using scan_lines_first_throw [OF that(2) l, of post] that(1)
    by (simp add: parseMarkdown_def parse_lines_def)
  from l a b show ?thesis by blast
qed

theorem header_line_throws_witness:
  "bracket_header ''# [1.2.0](http://x/1.2.0)'' \<and> \<not> has_date ''# [1.2.0](http://x/1.2.0)''
   \<and> line_elements ''# [1.2.0](http://x/1.2.0)'' = Inl NullMatch
   \<and> bracket_header ''## [1.2.0] 2024-01-05'' \<and> \<not> has_paren ''## [1.2.0] 2024-01-05''
   \<and> line_elements ''## [1.2.0] 2024-01-05'' = Inl NullMatch
   \<and> bare_header ''# 1.2.3'' \<and> CHR '' '' \<notin> set (drop 2 ''# 1.2.3'')
   \<and> line_elements ''# 1.2.3'' = Inl NullMatch
   \<and> js_split (''Changelog'' @ [CHR 0x0A] @ ''# 1.2.3'' @ [CHR 0x0A] @ ''### Features'') [CHR 0x0A]
       = [''Changelog''] @ [''# 1.2.3''] @ [''### Features'']
   \<and> scan_lines [''Changelog''] = Inr []
   \<and> parseMarkdown (''Changelog'' @ [CHR 0x0A] @ ''# 1.2.3'' @ [CHR 0x0A] @ ''### Features'')
       = Inl NullMatch"
proof -
  have b1: "bracket_header ''# [1.2.0](http://x/1.2.0)''" by code_simp
  have d1: "\<not> has_date ''# [1.2.0](http://x/1.2.0)''" by code_simp
  have b2: "bracket_header ''## [1.2.0] 2024-01-05''" by code_simp
  have p2: "\<not> has_paren ''## [1.2.0] 2024-01-05''" by code_simp
  have b3: "bare_header ''# 1.2.3''" by code_simp
  have s3: "CHR '' '' \<notin> set (drop 2 ''# 1.2.3'')" by simp
  have sp: "js_split (''Changelog'' @ [CHR 0x0A] @ ''# 1.2.3'' @ [CHR 0x0A] @ ''### Features'') [CHR 0x0A]
       = [''Changelog''] @ [''# 1.2.3''] @ [''### Features'']"
    by code_simp
  have sc: "scan_lines [''Changelog''] = Inr []" by code_simp
  have h1: "(bracket_header ''# [1.2.0](http://x/1.2.0)''
        \<and> (\<not> has_date ''# [1.2.0](http://x/1.2.0)'' \<or> \<not> has_paren ''# [1.2.0](http://x/1.2.0)''))
      \<or> (bare_header ''# [1.2.0](http://x/1.2.0)'' \<and> CHR '' '' \<notin> set (drop 2 ''# [1.2.0](http://x/1.2.0)''))"
    using b1 d1 by blast
  have h2: "(bracket_header ''## [1.2.0] 2024-01-05''
        \<and> (\<not> has_date ''## [1.2.0] 2024-01-05'' \<or> \<not> has_paren ''## [1.2.0] 2024-01-05''))
      \<or> (bare_header ''## [1.2.0] 2024-01-05'' \<and> CHR '' '' \<notin> set (drop 2 ''## [1.2.0] 2024-01-05''))"
    using b2 p2 by blast
  have h3: "(bracket_header ''# 1.2.3'' \<and> (\<not> has_date ''# 1.2.3'' \<or> \<not> has_paren ''# 1.2.3''))
      \<or> (bare_header ''# 1.2.3'' \<and> CHR '' '' \<notin> set (drop 2 ''# 1.2.3''))"
    using b3 s3 by blast
  have t1: "line_elements ''# [1.2.0](http://x/1.2.0)'' = Inl NullMatch"
    using header_line_throws [OF h1, of "[]"] by (rule conjunct1)
  have t2: "line_elements ''## [1.2.0] 2024-01-05'' = Inl NullMatch"
    using header_line_throws [OF h2, of "[]"] by (rule conjunct1)
  note w = header_line_throws [OF h3,
      of "''Changelog'' @ [CHR 0x0A] @ ''# 1.2.3'' @ [CHR 0x0A] @ ''### Features''"]
  have t3: "line_elements ''# 1.2.3'' = Inl NullMatch"
    using w by (rule conjunct1)
  have t4: "parseMarkdown (''Changelog'' @ [CHR 0x0A] @ ''# 1.2.3'' @ [CHR 0x0A] @ ''### Features'')
       = Inl NullMatch"
    using w [THEN conjunct2, THEN conjunct2] sp sc by blast
  show ?thesis
    using b1 d1 t1 b2 p2 t2 b3 s3 t3 sp sc t4 by blast
qed

end
